theory Spec2Isabelle
  imports Main "HOL-Library.Monad_Syntax"
begin

section \<open>The node store of the documentation tree\<close>

text \<open>
  \<^verbatim>\<open>mxmldoc.c\<close> builds and edits a tree of \<^verbatim>\<open>mxml_node_t\<close> objects through pointers: a node is
  created detached, filled in, linked below a parent, and often changed again through a pointer
  that the scanner kept. The model therefore keeps an explicit store. An address is a natural
  number, a nullable C pointer is a \<open>nat option\<close> (\<open>None\<close> is \<^verbatim>\<open>NULL\<close>), and a cell of the store is
  \<open>None\<close> once the node has been freed. Every function that dereferences a pointer returns an
  \<open>option\<close>: \<open>None\<close> stands for the dereference of a freed or unallocated address (undefined
  behaviour in C), \<open>Some\<close> for a normal return.

  The intrusive sibling list of the C structure (\<^verbatim>\<open>child\<close>, \<^verbatim>\<open>last_child\<close>, \<^verbatim>\<open>next\<close>, \<^verbatim>\<open>prev\<close>) is
  kept as the ordered list of child addresses in the parent. The \<^verbatim>\<open>value\<close> union together with
  the \<^verbatim>\<open>type\<close> tag is a datatype.
\<close>

datatype mxml_value =
    Element string "(string \<times> string) list"
  | Text bool string
  | Opaque string
  | OtherValue

record mxml_node =
  n_parent :: "nat option"
  n_children :: "nat list"
  n_value :: mxml_value

type_synonym heap = "mxml_node option list"
type_synonym ptr = "nat option"

definition node_at :: "heap \<Rightarrow> nat \<Rightarrow> mxml_node option" where
  "node_at h p = (if p < length h then h ! p else None)"

definition store :: "heap \<Rightarrow> nat \<Rightarrow> mxml_node \<Rightarrow> heap" where
  "store h p n = h[p := Some n]"

definition release :: "nat \<Rightarrow> heap \<Rightarrow> heap" where
  "release p h = h[p := None]"

subsection \<open>Character classes and string comparison of the C library\<close>

text \<open>The \<^verbatim>\<open>ctype.h\<close> predicates in the "C" locale, on a byte.\<close>

definition isdigit :: "char \<Rightarrow> bool" where
  "isdigit c = (let n = (of_char c :: nat) in 48 \<le> n \<and> n \<le> 57)"

definition isalnum :: "char \<Rightarrow> bool" where
  "isalnum c = (let n = (of_char c :: nat) in
     (48 \<le> n \<and> n \<le> 57) \<or> (65 \<le> n \<and> n \<le> 90) \<or> (97 \<le> n \<and> n \<le> 122))"

definition isspace :: "char \<Rightarrow> bool" where
  "isspace c = (let n = (of_char c :: nat) in n = 32 \<or> (9 \<le> n \<and> n \<le> 13))"

text \<open>\<^verbatim>\<open>strcmp\<close>: the difference of the first pair of differing bytes, read as unsigned.\<close>

fun strcmp :: "string \<Rightarrow> string \<Rightarrow> int" where
  "strcmp [] [] = 0"
| "strcmp [] (y # ys) = - int (of_char y)"
| "strcmp (x # xs) [] = int (of_char x)"
| "strcmp (x # xs) (y # ys) =
     (if x = y then strcmp xs ys else int (of_char x) - int (of_char y))"

text \<open>\<^verbatim>\<open>strstr(s, sub) != NULL\<close>.\<close>

fun strstr :: "string \<Rightarrow> string \<Rightarrow> bool" where
  "strstr [] sub = (sub = [])"
| "strstr (c # cs) sub = (take (length sub) (c # cs) = sub \<or> strstr cs sub)"

subsection \<open>The Mini-XML library functions used by the scanner\<close>

text \<open>
  Modelled from the spec: the Mini-XML node library (\<^verbatim>\<open>mxmlNewElement\<close>, \<^verbatim>\<open>mxmlNewText\<close>,
  \<^verbatim>\<open>mxmlAdd\<close>, \<^verbatim>\<open>mxmlRemove\<close>, \<^verbatim>\<open>mxmlDelete\<close>, \<^verbatim>\<open>mxmlElementGetAttr\<close>, \<^verbatim>\<open>mxmlElementSetAttr\<close>,
  \<^verbatim>\<open>mxmlWalkNext\<close>, \<^verbatim>\<open>mxmlFindElement\<close>) is not part of \<^verbatim>\<open>mxmldoc.c\<close>. The definitions below
  follow the interface the specification describes (an ordered, attributed tree with
  depth-first search that does not descend on resume) and the documented behaviour of the
  library: attributes are an ordered association of names to values, a new node is appended
  as the last child of its parent, adding a node first unlinks it from its old parent, and
  deleting a node unlinks it and frees it together with everything below it.
\<close>

datatype add_where = MXML_ADD_BEFORE | MXML_ADD_AFTER

datatype descend = MXML_NO_DESCEND | MXML_DESCEND | MXML_DESCEND_FIRST

fun get_attr :: "mxml_value \<Rightarrow> string \<Rightarrow> string option" where
  "get_attr (Element nm as) a = map_of as a"
| "get_attr _ a = None"

fun set_attr_list :: "(string \<times> string) list \<Rightarrow> string \<Rightarrow> string \<Rightarrow> (string \<times> string) list" where
  "set_attr_list [] a v = [(a, v)]"
| "set_attr_list ((k, w) # as) a v =
     (if k = a then (k, v) # as else (k, w) # set_attr_list as a v)"

fun set_attr :: "mxml_value \<Rightarrow> string \<Rightarrow> string \<Rightarrow> mxml_value" where
  "set_attr (Element nm as) a v = Element nm (set_attr_list as a v)"
| "set_attr x a v = x"

fun element_name :: "mxml_value \<Rightarrow> string option" where
  "element_name (Element nm as) = Some nm"
| "element_name _ = None"

definition mxmlElementGetAttr :: "heap \<Rightarrow> nat \<Rightarrow> string \<Rightarrow> string option option" where
  "mxmlElementGetAttr h p a = do { nd \<leftarrow> node_at h p; Some (get_attr (n_value nd) a) }"

definition mxmlElementSetAttr :: "heap \<Rightarrow> nat \<Rightarrow> string \<Rightarrow> string \<Rightarrow> heap option" where
  "mxmlElementSetAttr h p a v =
     do { nd \<leftarrow> node_at h p; Some (store h p (nd\<lparr>n_value := set_attr (n_value nd) a v\<rparr>)) }"

definition mxmlRemove :: "heap \<Rightarrow> nat \<Rightarrow> heap option" where
  "mxmlRemove h p =
     do { nd \<leftarrow> node_at h p;
          case n_parent nd of
            None \<Rightarrow> Some h
          | Some q \<Rightarrow>
              do { qn \<leftarrow> node_at h q;
                   let h1 = store h q (qn\<lparr>n_children := removeAll p (n_children qn)\<rparr>);
                   nd1 \<leftarrow> node_at h1 p;
                   Some (store h1 p (nd1\<lparr>n_parent := None\<rparr>)) } }"

fun insert_before :: "nat \<Rightarrow> nat \<Rightarrow> nat list \<Rightarrow> nat list" where
  "insert_before c p [] = [p]"
| "insert_before c p (x # xs) = (if x = c then p # x # xs else x # insert_before c p xs)"

fun insert_after :: "nat \<Rightarrow> nat \<Rightarrow> nat list \<Rightarrow> nat list" where
  "insert_after c p [] = [p]"
| "insert_after c p (x # xs) = (if x = c then x # p # xs else x # insert_after c p xs)"

definition mxmlAdd :: "heap \<Rightarrow> nat \<Rightarrow> add_where \<Rightarrow> ptr \<Rightarrow> nat \<Rightarrow> heap option" where
  "mxmlAdd h parent wh child p =
     do { h1 \<leftarrow> mxmlRemove h p;
          pn \<leftarrow> node_at h1 parent;
          let cs = n_children pn;
          cs' \<leftarrow> (case child of
                    None \<Rightarrow> Some (case wh of MXML_ADD_BEFORE \<Rightarrow> p # cs | MXML_ADD_AFTER \<Rightarrow> cs @ [p])
                  | Some c \<Rightarrow>
                      do { cn \<leftarrow> node_at h1 c;
                           Some (if n_parent cn = Some parent \<and> c \<in> set cs
                                 then (case wh of
                                         MXML_ADD_BEFORE \<Rightarrow> insert_before c p cs
                                       | MXML_ADD_AFTER \<Rightarrow> insert_after c p cs)
                                 else (case wh of
                                         MXML_ADD_BEFORE \<Rightarrow> p # cs
                                       | MXML_ADD_AFTER \<Rightarrow> cs @ [p])) });
          let h2 = store h1 parent (pn\<lparr>n_children := cs'\<rparr>);
          nd \<leftarrow> node_at h2 p;
          Some (store h2 p (nd\<lparr>n_parent := Some parent\<rparr>)) }"

fun free_subtree :: "nat \<Rightarrow> heap \<Rightarrow> nat \<Rightarrow> heap" where
  "free_subtree 0 h p = h"
| "free_subtree (Suc k) h p =
     (case node_at h p of
        None \<Rightarrow> h
      | Some nd \<Rightarrow> fold (\<lambda>c h'. free_subtree k h' c) (n_children nd) (release p h))"

definition mxmlDelete :: "heap \<Rightarrow> nat \<Rightarrow> heap option" where
  "mxmlDelete h p = do { h1 \<leftarrow> mxmlRemove h p; Some (free_subtree (length h1) h1 p) }"

definition mxml_new :: "heap \<Rightarrow> ptr \<Rightarrow> mxml_value \<Rightarrow> (heap \<times> nat) option" where
  "mxml_new h parent v =
     (let p = length h;
          h1 = h @ [Some \<lparr>n_parent = None, n_children = [], n_value = v\<rparr>]
      in case parent of
           None \<Rightarrow> Some (h1, p)
         | Some q \<Rightarrow> do { h2 \<leftarrow> mxmlAdd h1 q MXML_ADD_AFTER None p; Some (h2, p) })"

definition mxmlNewElement :: "heap \<Rightarrow> ptr \<Rightarrow> string \<Rightarrow> (heap \<times> nat) option" where
  "mxmlNewElement h parent nm = mxml_new h parent (Element nm [])"

definition mxmlNewText :: "heap \<Rightarrow> ptr \<Rightarrow> bool \<Rightarrow> string \<Rightarrow> (heap \<times> nat) option" where
  "mxmlNewText h parent ws s = mxml_new h parent (Text ws s)"

text \<open>The sibling after \<open>p\<close> in a child list (the \<^verbatim>\<open>next\<close> pointer).\<close>

fun next_in :: "nat \<Rightarrow> nat list \<Rightarrow> ptr" where
  "next_in p [] = None"
| "next_in p [x] = None"
| "next_in p (x # y # xs) = (if x = p then Some y else next_in p (y # xs))"

definition next_sibling :: "heap \<Rightarrow> nat \<Rightarrow> ptr option" where
  "next_sibling h p =
     do { nd \<leftarrow> node_at h p;
          case n_parent nd of
            None \<Rightarrow> Some None
          | Some q \<Rightarrow> do { qn \<leftarrow> node_at h q; Some (next_in p (n_children qn)) } }"

text \<open>
  The climb of \<^verbatim>\<open>mxmlWalkNext\<close> to the next sibling of the nearest ancestor that has one,
  stopping below \<open>tp\<close>. The counter bounds the climb by the size of the store; a parent chain
  in a tree is shorter.
\<close>

fun walk_up :: "nat \<Rightarrow> heap \<Rightarrow> nat \<Rightarrow> nat \<Rightarrow> ptr option" where
  "walk_up 0 h p tp = None"
| "walk_up (Suc k) h p tp =
     do { nx \<leftarrow> next_sibling h p;
          case nx of
            Some s \<Rightarrow> Some (Some s)
          | None \<Rightarrow>
              do { nd \<leftarrow> node_at h p;
                   case n_parent nd of
                     None \<Rightarrow> Some None
                   | Some q \<Rightarrow> if q = tp then Some None else walk_up k h q tp } }"

definition mxmlWalkNext :: "heap \<Rightarrow> nat \<Rightarrow> nat \<Rightarrow> descend \<Rightarrow> ptr option" where
  "mxmlWalkNext h p tp d =
     do { nd \<leftarrow> node_at h p;
          if n_children nd \<noteq> [] \<and> d \<noteq> MXML_NO_DESCEND then Some (Some (hd (n_children nd)))
          else if p = tp then Some None
          else walk_up (length h) h p tp }"

definition elem_match :: "string option \<Rightarrow> string option \<Rightarrow> string option \<Rightarrow> mxml_node \<Rightarrow> bool" where
  "elem_match nm attr v nd =
     (case n_value nd of
        Element e as \<Rightarrow>
          (case nm of None \<Rightarrow> True | Some x \<Rightarrow> e = x) \<and>
          (case attr of
             None \<Rightarrow> True
           | Some a \<Rightarrow> (case map_of as a of
                          None \<Rightarrow> False
                        | Some w \<Rightarrow> (case v of None \<Rightarrow> True | Some x \<Rightarrow> x = w)))
      | _ \<Rightarrow> False)"

fun find_from :: "nat \<Rightarrow> heap \<Rightarrow> ptr \<Rightarrow> nat \<Rightarrow> (mxml_node \<Rightarrow> bool) \<Rightarrow> descend \<Rightarrow> ptr option" where
  "find_from 0 h cur tp P d = None"
| "find_from (Suc k) h None tp P d = Some None"
| "find_from (Suc k) h (Some p) tp P d =
     do { nd \<leftarrow> node_at h p;
          if P nd then Some (Some p)
          else do { nx \<leftarrow> mxmlWalkNext h p tp
                            (if d = MXML_DESCEND then MXML_DESCEND else MXML_NO_DESCEND);
                    find_from k h nx tp P d } }"

definition mxmlFindElement ::
  "heap \<Rightarrow> nat \<Rightarrow> nat \<Rightarrow> string option \<Rightarrow> string option \<Rightarrow> string option \<Rightarrow> descend \<Rightarrow> ptr option" where
  "mxmlFindElement h p tp nm attr v d =
     (if attr = None \<and> v \<noteq> None then Some None
      else do { first \<leftarrow> mxmlWalkNext h p tp d;
                find_from (Suc (length h)) h first tp (elem_match nm attr v) d })"

section \<open>Sorted insertion: \<^verbatim>\<open>sort_node\<close>\<close>

text \<open>
  The loop of \<^verbatim>\<open>sort_node\<close> over the children of the tree: the first child that has a
  \<^verbatim>\<open>name\<close> attribute with \<^verbatim>\<open>strcmp(nodename, tempname) < 0\<close>, or \<^verbatim>\<open>NULL\<close>.
\<close>

fun sort_position :: "heap \<Rightarrow> string \<Rightarrow> nat list \<Rightarrow> ptr option" where
  "sort_position h nodename [] = Some None"
| "sort_position h nodename (temp # rest) =
     do { tn \<leftarrow> node_at h temp;
          case get_attr (n_value tn) ''name'' of
            None \<Rightarrow> sort_position h nodename rest
          | Some tempname \<Rightarrow>
              if strcmp nodename tempname < 0 then Some (Some temp)
              else sort_position h nodename rest }"

text \<open>The middle part of \<^verbatim>\<open>sort_node\<close>: "Delete any existing definition at this level".\<close>

definition delete_existing :: "heap \<Rightarrow> nat \<Rightarrow> nat \<Rightarrow> mxml_node \<Rightarrow> string \<Rightarrow> heap option" where
  "delete_existing h t p nd nodename =
     do { temp \<leftarrow> mxmlFindElement h t t (element_name (n_value nd))
                    (Some ''name'') (Some nodename) MXML_DESCEND_FIRST;
          case temp of
            None \<Rightarrow> Some h
          | Some old \<Rightarrow>
              do { on \<leftarrow> node_at h old;
                   h' \<leftarrow> (case (get_attr (n_value on) ''scope'', get_attr (n_value nd) ''scope'') of
                            (Some scope, None) \<Rightarrow> mxmlElementSetAttr h p ''scope'' scope
                          | _ \<Rightarrow> Some h);
                   mxmlDelete h' old } }"

text \<open>The last part: "Add the node into the tree at the proper place".\<close>

definition add_sorted :: "heap \<Rightarrow> nat \<Rightarrow> nat \<Rightarrow> string \<Rightarrow> heap option" where
  "add_sorted h t p nodename =
     do { tn \<leftarrow> node_at h t;
          pos \<leftarrow> sort_position h nodename (n_children tn);
          case pos of
            Some temp \<Rightarrow> mxmlAdd h t MXML_ADD_BEFORE (Some temp) p
          | None \<Rightarrow> mxmlAdd h t MXML_ADD_AFTER None p }"

definition sort_node :: "heap \<Rightarrow> ptr \<Rightarrow> ptr \<Rightarrow> heap option" where
  "sort_node h tree node =
     (case (tree, node) of
        (Some t, Some p) \<Rightarrow>
          do { nd \<leftarrow> node_at h p;
               if n_parent nd = Some t then Some h
               else case get_attr (n_value nd) ''name'' of
                 None \<Rightarrow> Some h
               | Some nodename \<Rightarrow>
                   if take 1 nodename = ''_'' then Some h
                   else do { h1 \<leftarrow> delete_existing h t p nd nodename;
                             add_sorted h1 t p nodename } }
      | _ \<Rightarrow> Some h)"

subsection \<open>Well-formed stores\<close>

text \<open>
  A store is consistent when child lists have no repetition, every listed child is allocated
  and names the listing node as its parent, and every node with a parent is listed by it. It is
  ranked by \<open>rk\<close> when every child has a smaller rank than its parent, which excludes cycles.
  Both are checked by running over the cells of the store.
\<close>

definition consistent :: "heap \<Rightarrow> bool" where
  "consistent h =
     list_all (\<lambda>p. case node_at h p of
                      None \<Rightarrow> True
                    | Some pn \<Rightarrow>
                        distinct (n_children pn) \<and>
                        list_all (\<lambda>c. case node_at h c of
                                         None \<Rightarrow> False
                                       | Some cn \<Rightarrow> n_parent cn = Some p) (n_children pn) \<and>
                        (case n_parent pn of
                           None \<Rightarrow> True
                         | Some q \<Rightarrow> (case node_at h q of
                                        None \<Rightarrow> False
                                      | Some qn \<Rightarrow> p \<in> set (n_children qn))))
       [0..<length h]"

definition ranked :: "(nat \<Rightarrow> nat) \<Rightarrow> heap \<Rightarrow> bool" where
  "ranked rk h =
     list_all (\<lambda>p. case node_at h p of
                      None \<Rightarrow> True
                    | Some pn \<Rightarrow> list_all (\<lambda>c. rk c < rk p) (n_children pn))
       [0..<length h]"

definition wf_heap :: "(nat \<Rightarrow> nat) \<Rightarrow> heap \<Rightarrow> bool" where
  "wf_heap rk h = (consistent h \<and> ranked rk h)"

definition child_links :: "heap \<Rightarrow> bool" where
  "child_links h = (\<forall>p pn c cn. node_at h p = Some pn \<longrightarrow> c \<in> set (n_children pn) \<longrightarrow>
                      node_at h c = Some cn \<longrightarrow> n_parent cn = Some p)"

definition sub_heap :: "heap \<Rightarrow> heap \<Rightarrow> bool" where
  "sub_heap g h = (length g = length h \<and> (\<forall>x. node_at g x = None \<or> node_at g x = node_at h x))"

definition holds_at :: "heap \<Rightarrow> (mxml_node \<Rightarrow> bool) \<Rightarrow> nat \<Rightarrow> bool" where
  "holds_at h P c = (case node_at h c of None \<Rightarrow> False | Some cn \<Rightarrow> P cn)"

definition name_after :: "heap \<Rightarrow> string \<Rightarrow> nat \<Rightarrow> bool" where
  "name_after h nm c =
     (case node_at h c of
        None \<Rightarrow> False
      | Some cn \<Rightarrow> (case get_attr (n_value cn) ''name'' of
                      None \<Rightarrow> False
                    | Some tempname \<Rightarrow> strcmp nm tempname < 0))"

definition attr_at :: "heap \<Rightarrow> nat \<Rightarrow> string \<Rightarrow> string option" where
  "attr_at h c a = (case node_at h c of None \<Rightarrow> None | Some cn \<Rightarrow> get_attr (n_value cn) a)"

definition same_kind_name :: "heap \<Rightarrow> string \<Rightarrow> string \<Rightarrow> nat \<Rightarrow> bool" where
  "same_kind_name h kind nm c =
     (case node_at h c of
        None \<Rightarrow> False
      | Some cn \<Rightarrow> element_name (n_value cn) = Some kind \<and> get_attr (n_value cn) ''name'' = Some nm)"

definition inherit_scope :: "string option \<Rightarrow> (string \<times> string) list \<Rightarrow> (string \<times> string) list" where
  "inherit_scope old_scope as =
     (case (old_scope, map_of as ''scope'') of
        (Some s, None) \<Rightarrow> as @ [(''scope'', s)]
      | _ \<Rightarrow> as)"

subsection \<open>Specification-side notions for sorted insertion\<close>

text \<open>
  \<open>placed_sorted h t p nm\<close>: in the store \<open>h\<close> the node \<open>p\<close> is a child of \<open>t\<close>, no sibling
  before it has a name that compares greater than \<open>nm\<close>, and the sibling right after it, if there
  is one, has such a name. The example stores are used to run the functions on concrete input.
\<close>

definition placed_sorted :: "heap \<Rightarrow> nat \<Rightarrow> nat \<Rightarrow> string \<Rightarrow> bool" where
  "placed_sorted h t p nm =
     (case node_at h t of
        None \<Rightarrow> False
      | Some tn \<Rightarrow>
          p \<in> set (n_children tn) \<and>
          list_all (\<lambda>c. \<not> name_after h nm c) (takeWhile (\<lambda>c. c \<noteq> p) (n_children tn)) \<and>
          (case drop 1 (dropWhile (\<lambda>c. c \<noteq> p) (n_children tn)) of
             [] \<Rightarrow> True
           | c # _ \<Rightarrow> name_after h nm c))"

definition example_tree :: heap where
  "example_tree =
     [Some \<lparr>n_parent = None, n_children = [1, 2], n_value = Element ''mxmldoc'' []\<rparr>,
      Some \<lparr>n_parent = Some 0, n_children = [],
            n_value = Element ''variable'' [(''name'', ''b''), (''scope'', ''private'')]\<rparr>,
      Some \<lparr>n_parent = Some 0, n_children = [], n_value = Element ''variable'' [(''name'', ''d'')]\<rparr>,
      Some \<lparr>n_parent = None, n_children = [], n_value = Element ''variable'' [(''name'', ''b'')]\<rparr>,
      Some \<lparr>n_parent = None, n_children = [], n_value = Element ''variable'' [(''name'', ''c'')]\<rparr>]"

definition example_rank :: "nat \<Rightarrow> nat" where
  "example_rank p = (if p = 0 then 1 else 0)"

definition unsorted_tree :: heap where
  "unsorted_tree =
     [Some \<lparr>n_parent = None, n_children = [1, 2], n_value = Element ''mxmldoc'' []\<rparr>,
      Some \<lparr>n_parent = Some 0, n_children = [], n_value = Element ''variable'' [(''name'', ''b'')]\<rparr>,
      Some \<lparr>n_parent = Some 0, n_children = [], n_value = Element ''variable'' [(''name'', ''a'')]\<rparr>]"

section \<open>Comment normalisation: \<^verbatim>\<open>update_comment\<close>\<close>

text \<open>The first loop of \<^verbatim>\<open>update_comment\<close>: every \<^verbatim>\<open>\/\<close> becomes \<^verbatim>\<open>/\<close>, scanning left to right.\<close>

fun unescape_slash :: "string \<Rightarrow> string" where
  "unescape_slash (a # b # cs) =
     (if a = CHR 0x5C \<and> b = CHR ''/'' then b # unescape_slash cs else a # unescape_slash (b # cs))"
| "unescape_slash cs = cs"

text \<open>
  \<^verbatim>\<open>while (isspace(*ptr)) ptr ++; if (*ptr == '-') ptr ++; while (isspace(*ptr)) ptr ++;\<close>
\<close>

definition skip_dash :: "string \<Rightarrow> string" where
  "skip_dash s =
     (let s1 = dropWhile isspace s;
          s2 = (case s1 of [] \<Rightarrow> [] | c # cs \<Rightarrow> if c = CHR ''-'' then cs else s1)
      in dropWhile isspace s2)"

text \<open>
  "Eliminate leading and trailing *'s": the leading asterisks and then the leading white space
  are dropped; from the end, asterisks and then white space are cut, but never the first
  character (both loops test \<^verbatim>\<open>ptr > comment->value.text.string\<close>).
\<close>

definition strip_stars :: "string \<Rightarrow> string" where
  "strip_stars s =
     (case dropWhile isspace (dropWhile (\<lambda>c. c = CHR ''*'') s) of
        [] \<Rightarrow> []
      | c # cs \<Rightarrow> c # rev (dropWhile isspace (dropWhile (\<lambda>c. c = CHR ''*'') (rev cs))))"

text \<open>
  \<^verbatim>\<open>update_comment\<close> rewrites the string of the comment's text node in place and, for a
  direction prefix, sets the \<^verbatim>\<open>direction\<close> attribute of an \<^verbatim>\<open>argument\<close> parent. The comment
  must be a text node and, on the direction branch, the parent an element, as the C code reads
  \<^verbatim>\<open>value.text.string\<close> and \<^verbatim>\<open>value.element.name\<close> of them without a test.
\<close>

definition update_comment :: "heap \<Rightarrow> ptr \<Rightarrow> ptr \<Rightarrow> heap option" where
  "update_comment h parent comment =
     (case (parent, comment) of
        (Some p, Some c) \<Rightarrow>
          do { cn \<leftarrow> node_at h c;
               case n_value cn of
                 Text ws string \<Rightarrow>
                   (let s = unescape_slash string in
                    do { (h1, s1) \<leftarrow>
                           (if take 1 s = [CHR 0x27] then
                              (case dropWhile (\<lambda>x. x \<noteq> CHR 0x27) (drop 1 s) of
                                 [] \<Rightarrow> Some (h, s)
                               | q # rest \<Rightarrow> Some (h, skip_dash rest))
                            else if take 2 s = ''I '' \<or> take 2 s = ''O '' \<or> take 3 s = ''IO '' then
                              do { pn \<leftarrow> node_at h p;
                                   pname \<leftarrow> element_name (n_value pn);
                                   h' \<leftarrow> (if pname = ''argument''
                                          then mxmlElementSetAttr h p ''direction''
                                                 (takeWhile (\<lambda>x. x \<noteq> CHR '' '') s)
                                          else Some h);
                                   Some (h', skip_dash (drop 1 (dropWhile (\<lambda>x. x \<noteq> CHR '' '') s))) }
                            else Some (h, s));
                         cn1 \<leftarrow> node_at h1 c;
                         Some (store h1 c (cn1\<lparr>n_value := Text ws (strip_stars s1)\<rparr>)) })
               | _ \<Rightarrow> None }
      | _ \<Rightarrow> Some h)"


section \<open>The public filter: \<^verbatim>\<open>find_public\<close>\<close>






text \<open>Specification side: the nodes a search without descent visits, and what "public" means.\<close>

fun walk_seq :: "nat \<Rightarrow> heap \<Rightarrow> ptr \<Rightarrow> nat \<Rightarrow> nat list option" where
  "walk_seq k h None tp = Some []"
| "walk_seq 0 h (Some p) tp = None"
| "walk_seq (Suc k) h (Some p) tp =
     do { nx \<leftarrow> mxmlWalkNext h p tp MXML_NO_DESCEND;
          rest \<leftarrow> walk_seq k h nx tp;
          Some (p # rest) }"







section \<open>The variables and helpers of the scanner\<close>

datatype parse_state =
    STATE_NONE | STATE_PREPROCESSOR | STATE_C_COMMENT | STATE_CXX_COMMENT
  | STATE_STRING | STATE_CHARACTER | STATE_IDENTIFIER

record scan_vars =
  s_state :: parse_state
  s_braces :: nat
  s_parens :: nat
  s_buffer :: string
  s_scope :: "string option"
  s_comment :: nat
  s_constant :: ptr
  s_enumeration :: ptr
  s_function :: ptr
  s_fstructclass :: ptr
  s_structclass :: ptr
  s_typedefnode :: ptr
  s_variable :: ptr
  s_type :: ptr

definition first_child :: "heap \<Rightarrow> nat \<Rightarrow> ptr option" where
  "first_child h p =
     do { pn \<leftarrow> node_at h p; Some (case n_children pn of [] \<Rightarrow> None | c # _ \<Rightarrow> Some c) }"

definition last_child :: "heap \<Rightarrow> nat \<Rightarrow> ptr option" where
  "last_child h p =
     do { pn \<leftarrow> node_at h p;
          Some (if n_children pn = [] then None else Some (last (n_children pn))) }"

definition text_string :: "heap \<Rightarrow> nat \<Rightarrow> string option" where
  "text_string h p =
     do { pn \<leftarrow> node_at h p; case n_value pn of Text ws s \<Rightarrow> Some s | _ \<Rightarrow> None }"

definition text_whitespace :: "heap \<Rightarrow> nat \<Rightarrow> bool option" where
  "text_whitespace h p =
     do { pn \<leftarrow> node_at h p; case n_value pn of Text ws s \<Rightarrow> Some ws | _ \<Rightarrow> None }"

definition clear_whitespace :: "heap \<Rightarrow> nat \<Rightarrow> heap option" where
  "clear_whitespace h p =
     do { pn \<leftarrow> node_at h p;
          case n_value pn of
            Text ws s \<Rightarrow> Some (store h p (pn\<lparr>n_value := Text False s\<rparr>))
          | _ \<Rightarrow> None }"

definition element_name_at :: "heap \<Rightarrow> nat \<Rightarrow> string option" where
  "element_name_at h p = do { pn \<leftarrow> node_at h p; element_name (n_value pn) }"

definition BUFFER_SIZE :: nat where
  "BUFFER_SIZE = 65536"

definition buffer_room :: "string \<Rightarrow> bool" where
  "buffer_room b = (length b < BUFFER_SIZE - 1)"

definition put_checked :: "string \<Rightarrow> char \<Rightarrow> string" where
  "put_checked b c = (if buffer_room b then b @ [c] else b)"

definition put_unchecked :: "string \<Rightarrow> char \<Rightarrow> string option" where
  "put_unchecked b c = (if length b < BUFFER_SIZE then Some (b @ [c]) else None)"

definition terminate :: "string \<Rightarrow> string option" where
  "terminate b = (if length b < BUFFER_SIZE then Some b else None)"

text \<open>
  \<open>s_buffer\<close> holds the bytes between \<^verbatim>\<open>buffer\<close> and \<^verbatim>\<open>bufptr\<close>. Once terminated, the buffer is
  read by \<^verbatim>\<open>strstr\<close>, \<^verbatim>\<open>strcmp\<close>, \<^verbatim>\<open>strchr\<close>, \<^verbatim>\<open>mxmlNewText\<close> and \<^verbatim>\<open>mxmlElementSetAttr\<close> as a C
  string: the bytes before the first NUL, which may be a NUL byte read from the file.
\<close>

definition c_string :: "string \<Rightarrow> string" where
  "c_string b = takeWhile (\<lambda>c. c \<noteq> CHR 0x00) b"

fun join_text :: "nat \<Rightarrow> heap \<Rightarrow> string \<Rightarrow> nat list \<Rightarrow> string option" where
  "join_text cap h buf [] = Some buf"
| "join_text cap h buf (node # rest) =
     do { ws \<leftarrow> text_whitespace h node;
          s \<leftarrow> text_string h node;
          let buf1 = (if ws \<and> buf \<noteq> [] then buf @ '' '' else buf);
          if cap \<le> length buf1 then None
          else join_text cap h (buf1 @ take (cap - 1 - length buf1) s) rest }"

fun delete_all :: "heap \<Rightarrow> nat list \<Rightarrow> heap option" where
  "delete_all h [] = Some h"
| "delete_all h (node # rest) = do { h1 \<leftarrow> mxmlDelete h node; delete_all h1 rest }"

definition word_flag :: "heap \<Rightarrow> nat \<Rightarrow> bool option" where
  "word_flag h ty =
     do { lc \<leftarrow> last_child h ty;
          case lc of
            None \<Rightarrow> Some False
          | Some c \<Rightarrow> do { s \<leftarrow> text_string h c;
                           Some (take 1 s \<noteq> ''('' \<and> take 1 s \<noteq> ''*'') } }"

definition punct_flag :: "heap \<Rightarrow> nat \<Rightarrow> bool option" where
  "punct_flag h ty =
     do { lc \<leftarrow> last_child h ty;
          c \<leftarrow> lc;
          s \<leftarrow> text_string h c;
          Some (case s of [] \<Rightarrow> False | x # _ \<Rightarrow> isalnum x \<or> x = CHR ''_'') }"

definition type_token :: "scan_vars \<Rightarrow> heap \<Rightarrow> bool option \<Rightarrow> string \<Rightarrow> heap option" where
  "type_token st h ws tok =
     (case s_type st of
        None \<Rightarrow> Some h
      | Some ty \<Rightarrow>
          do { w \<leftarrow> (case ws of Some b \<Rightarrow> Some b | None \<Rightarrow> punct_flag h ty);
               (h1, t) \<leftarrow> mxmlNewText h (Some ty) w tok;
               Some h1 })"

definition describe :: "heap \<Rightarrow> nat \<Rightarrow> nat \<Rightarrow> heap option" where
  "describe h comment target =
     do { (h1, description) \<leftarrow> mxmlNewElement h (Some target) ''description'';
          lc \<leftarrow> last_child h1 comment;
          h2 \<leftarrow> update_comment h1 (Some target) lc;
          case lc of
            None \<Rightarrow> Some h2
          | Some c \<Rightarrow> mxmlAdd h2 description MXML_ADD_AFTER None c }"

definition describe_typedef :: "heap \<Rightarrow> nat \<Rightarrow> ptr \<Rightarrow> heap option" where
  "describe_typedef h comment typedefnode =
     (case typedefnode of
        None \<Rightarrow> Some h
      | Some t \<Rightarrow>
          do { lc \<leftarrow> last_child h comment;
               case lc of
                 None \<Rightarrow> Some h
               | Some c \<Rightarrow>
                   do { s \<leftarrow> text_string h c;
                        (h1, copy) \<leftarrow> mxmlNewText h (Some comment) False s;
                        describe h1 comment t } })"


definition second_child :: "heap \<Rightarrow> nat \<Rightarrow> ptr option" where
  "second_child h p =
     do { pn \<leftarrow> node_at h p;
          case n_children pn of
            [] \<Rightarrow> None
          | [a] \<Rightarrow> Some None
          | a # b # _ \<Rightarrow> Some (Some b) }"

text \<open>
  A loop over sibling text nodes that stops at the first one whose string satisfies \<open>P\<close>:
  the result is the list of nodes from that one on (empty when the loop runs off the end).
\<close>

fun from_text :: "heap \<Rightarrow> (string \<Rightarrow> bool) \<Rightarrow> nat list \<Rightarrow> nat list option" where
  "from_text h P [] = Some []"
| "from_text h P (node # rest) =
     do { s \<leftarrow> text_string h node;
          if P s then Some (node # rest) else from_text h P rest }"

section \<open>\<^verbatim>\<open>add_variable\<close>\<close>

definition add_variable :: "heap \<Rightarrow> ptr \<Rightarrow> string \<Rightarrow> ptr \<Rightarrow> (heap \<times> ptr) option" where
  "add_variable h parent name type =
     (case type of
        None \<Rightarrow> Some (h, None)
      | Some ty \<Rightarrow>
          do { tn \<leftarrow> node_at h ty;
               if n_children tn = [] then Some (h, None)
               else
                 do { (h1, variable) \<leftarrow> mxmlNewElement h parent name;
                      dflt \<leftarrow> from_text h1 (\<lambda>s. s = ''='') (n_children tn);
                      (h2, buffer) \<leftarrow>
                        (if dflt = [] then Some (h1, None)
                         else do { b \<leftarrow> join_text 16384 h1 [] dflt;
                                   h' \<leftarrow> delete_all h1 dflt;
                                   h'' \<leftarrow> mxmlElementSetAttr h' variable ''default'' b;
                                   Some (h'', Some b) });
                      lc \<leftarrow> last_child h2 ty;
                      l \<leftarrow> lc;
                      ls \<leftarrow> text_string h2 l;
                      (h3, buffer') \<leftarrow>
                        (if take 1 ls = '')'' then
                           do { tn2 \<leftarrow> node_at h2 ty;
                                fp \<leftarrow> from_text h2 (\<lambda>s. take 1 s = ''('') (n_children tn2);
                                if fp = [] then Some (h2, buffer)
                                else do { b \<leftarrow> join_text 16384 h2 [] fp;
                                          h' \<leftarrow> delete_all h2 fp;
                                          Some (h', Some b) } }
                         else do { h' \<leftarrow> mxmlDelete h2 l; Some (h', Some (take 16383 ls)) });
                      nm \<leftarrow> buffer';
                      h4 \<leftarrow> mxmlElementSetAttr h3 variable ''name'' nm;
                      h5 \<leftarrow> mxmlAdd h4 variable MXML_ADD_AFTER None ty;
                      Some (h5, Some variable) } })"

section \<open>The scanner \<^verbatim>\<open>scan_file\<close>\<close>

subsection \<open>A completed comment\<close>

definition add_description :: "heap \<Rightarrow> nat \<Rightarrow> nat \<Rightarrow> string \<Rightarrow> heap option" where
  "add_description h comment target buf =
     do { (h1, description) \<leftarrow> mxmlNewElement h (Some target) ''description'';
          (h2, saved) \<leftarrow> mxmlNewText h1 (Some comment) False buf;
          (h3, text) \<leftarrow> mxmlNewText h2 (Some description) False buf;
          update_comment h3 (Some target) (Some text) }"

definition plain_description :: "heap \<Rightarrow> nat \<Rightarrow> string \<Rightarrow> heap option" where
  "plain_description h target buf =
     do { (h1, description) \<leftarrow> mxmlNewElement h (Some target) ''description'';
          (h2, text) \<leftarrow> mxmlNewText h1 (Some description) False buf;
          update_comment h2 (Some target) (Some text) }"

definition delete_if_set :: "heap \<Rightarrow> ptr \<Rightarrow> heap option" where
  "delete_if_set h p = (case p of None \<Rightarrow> Some h | Some x \<Rightarrow> mxmlDelete h x)"

text \<open>
  The chain of tests that follows the completion of a comment. The three copies in the source
  (block comment ended on a line of its own, block comment ended in a line, line comment) are
  the same except that the line-comment copy leaves \<^verbatim>\<open>typedefnode\<close> set after describing it;
  \<open>cxx\<close> selects that copy.
\<close>

definition attach_comment :: "bool \<Rightarrow> nat \<Rightarrow> scan_vars \<Rightarrow> heap \<Rightarrow> (scan_vars \<times> heap) option" where
  "attach_comment cxx tree st h =
     (let buf = c_string (s_buffer st); private = strstr buf ''@private@'' in
      case s_variable st of
        Some v \<Rightarrow>
          do { h1 \<leftarrow> (if private then mxmlDelete h v else add_description h (s_comment st) v buf);
               Some (st\<lparr>s_variable := None\<rparr>, h1) }
      | None \<Rightarrow>
         (case s_constant st of
            Some c \<Rightarrow>
              do { h1 \<leftarrow> (if private then mxmlDelete h c else add_description h (s_comment st) c buf);
                   Some (st\<lparr>s_constant := None\<rparr>, h1) }
          | None \<Rightarrow>
             (case s_typedefnode st of
                Some t \<Rightarrow>
                  if private then
                    do { h1 \<leftarrow> mxmlDelete h t;
                         h2 \<leftarrow> delete_if_set h1 (s_structclass st);
                         h3 \<leftarrow> delete_if_set h2 (s_enumeration st);
                         Some (st\<lparr>s_typedefnode := None, s_structclass := None,
                                  s_enumeration := None\<rparr>, h3) }
                  else
                    do { h1 \<leftarrow> add_description h (s_comment st) t buf;
                         h2 \<leftarrow> (case s_structclass st of
                                  Some sc \<Rightarrow> plain_description h1 sc buf
                                | None \<Rightarrow> (case s_enumeration st of
                                             Some e \<Rightarrow> plain_description h1 e buf
                                           | None \<Rightarrow> Some h1));
                         Some (if cxx then st else st\<lparr>s_typedefnode := None\<rparr>, h2) }
              | None \<Rightarrow>
                  do { tname \<leftarrow> element_name_at h tree;
                       described \<leftarrow> (if tname \<noteq> ''mxmldoc''
                                     then mxmlFindElement h tree tree (Some ''description'') None None
                                            MXML_DESCEND_FIRST
                                     else Some None);
                       if tname \<noteq> ''mxmldoc'' \<and> described = None
                       then do { h1 \<leftarrow> add_description h (s_comment st) tree buf; Some (st, h1) }
                       else do { (h1, saved) \<leftarrow> mxmlNewText h (Some (s_comment st)) False buf;
                                 Some (st, h1) } })))"

definition comment_done :: "bool \<Rightarrow> nat \<Rightarrow> scan_vars \<Rightarrow> heap \<Rightarrow> (scan_vars \<times> heap) option" where
  "comment_done cxx tree st h =
     do { cn \<leftarrow> node_at h (s_comment st);
          h0 \<leftarrow> (if n_children cn \<noteq> [] \<and> hd (n_children cn) \<noteq> last (n_children cn)
                 then mxmlDelete h (hd (n_children cn)) else Some h);
          attach_comment cxx tree st h0 }"


subsection \<open>Punctuation in the state \<^verbatim>\<open>STATE_NONE\<close>\<close>

datatype brace_kind = AGGREGATE | ENUMERATION | EXTERN | OTHER

text \<open>The chain of conditions of \<^verbatim>\<open>case '{'\<close> on the pending type, read as lazily as in C.\<close>

definition brace_kind_of :: "heap \<Rightarrow> nat \<Rightarrow> brace_kind option" where
  "brace_kind_of h ty =
     do { c \<leftarrow> first_child h ty;
          case c of
            None \<Rightarrow> Some OTHER
          | Some a \<Rightarrow>
              do { s \<leftarrow> text_string h a;
                   second \<leftarrow> second_child h ty;
                   agg \<leftarrow> (if s = ''typedef'' then
                              (case second of
                                 None \<Rightarrow> Some False
                               | Some b \<Rightarrow> do { t \<leftarrow> text_string h b;
                                                Some (t = ''struct'' \<or> t = ''union'' \<or> t = ''class'') })
                            else Some False);
                   if agg \<or> s = ''union'' \<or> s = ''struct'' \<or> s = ''class'' then Some AGGREGATE
                   else
                     do { en \<leftarrow> (case second of
                                   None \<Rightarrow> Some False
                                 | Some b \<Rightarrow> if s = ''enum'' then Some True
                                            else if s = ''typedef''
                                            then do { t \<leftarrow> text_string h b; Some (t = ''enum'') }
                                            else Some False);
                          if en then Some ENUMERATION
                          else if s = ''extern'' then Some EXTERN
                          else Some OTHER } } }"

text \<open>"starting typedef": a leading \<^verbatim>\<open>typedef\<close> makes a detached typedef node and is dropped from the type.\<close>

definition start_typedef :: "heap \<Rightarrow> nat \<Rightarrow> (heap \<times> ptr) option" where
  "start_typedef h ty =
     do { c \<leftarrow> first_child h ty;
          a \<leftarrow> c;
          s \<leftarrow> text_string h a;
          if s = ''typedef'' then
            do { (h1, t) \<leftarrow> mxmlNewElement h None ''typedef'';
                 h2 \<leftarrow> mxmlDelete h1 a;
                 Some (h2, Some t) }
          else Some (h, None) }"

definition name_and_sort :: "heap \<Rightarrow> nat \<Rightarrow> nat \<Rightarrow> nat \<Rightarrow> heap option" where
  "name_and_sort h tree ty node =
     do { second \<leftarrow> second_child h ty;
          case second of
            None \<Rightarrow> Some h
          | Some b \<Rightarrow> do { nm \<leftarrow> text_string h b;
                           h1 \<leftarrow> mxmlElementSetAttr h node ''name'' nm;
                           sort_node h1 (Some tree) (Some node) } }"

definition finish_brace :: "scan_vars \<Rightarrow> scan_vars" where
  "finish_brace st = st\<lparr>s_braces := Suc (s_braces st), s_function := None, s_variable := None\<rparr>"

definition open_aggregate ::
  "nat \<Rightarrow> scan_vars \<Rightarrow> heap \<Rightarrow> nat \<Rightarrow> ((nat \<times> bool) option \<times> scan_vars \<times> heap) option" where
  "open_aggregate tree st h ty =
     do { (h1, typedefnode) \<leftarrow> start_typedef h ty;
          c \<leftarrow> first_child h1 ty;
          a \<leftarrow> c;
          kind \<leftarrow> text_string h1 a;
          (h2, structclass) \<leftarrow> mxmlNewElement h1 None kind;
          h3 \<leftarrow> name_and_sort h2 tree ty structclass;
          tn \<leftarrow> node_at h3 ty;
          (h4, type', buf) \<leftarrow>
            (if typedefnode \<noteq> None \<and> n_children tn \<noteq> [] then
               do { g \<leftarrow> clear_whitespace h3 (hd (n_children tn));
                    Some (g, Some ty, s_buffer st) }
             else if 3 \<le> length (n_children tn) then
               do { b \<leftarrow> join_text BUFFER_SIZE h3 [] (drop 2 (n_children tn));
                    g1 \<leftarrow> delete_all h3 (drop 2 (n_children tn));
                    g2 \<leftarrow> mxmlElementSetAttr g1 structclass ''parent'' b;
                    g3 \<leftarrow> mxmlDelete g2 ty;
                    Some (g3, None, b) }
             else do { g \<leftarrow> mxmlDelete h3 ty; Some (g, None, s_buffer st) });
          h5 \<leftarrow> describe_typedef h4 (s_comment st) typedefnode;
          h6 \<leftarrow> describe h5 (s_comment st) structclass;
          Some (Some (structclass, False),
                st\<lparr>s_typedefnode := typedefnode, s_structclass := Some structclass,
                   s_type := type', s_buffer := buf\<rparr>, h6) }"

definition open_enumeration ::
  "nat \<Rightarrow> scan_vars \<Rightarrow> heap \<Rightarrow> nat \<Rightarrow> ((nat \<times> bool) option \<times> scan_vars \<times> heap) option" where
  "open_enumeration tree st h ty =
     do { (h1, typedefnode) \<leftarrow> start_typedef h ty;
          (h2, enumeration) \<leftarrow> mxmlNewElement h1 None ''enumeration'';
          h3 \<leftarrow> name_and_sort h2 tree ty enumeration;
          tn \<leftarrow> node_at h3 ty;
          (h4, type') \<leftarrow>
            (if typedefnode \<noteq> None \<and> n_children tn \<noteq> [] then
               do { g \<leftarrow> clear_whitespace h3 (hd (n_children tn)); Some (g, Some ty) }
             else do { g \<leftarrow> mxmlDelete h3 ty; Some (g, None) });
          h5 \<leftarrow> describe_typedef h4 (s_comment st) typedefnode;
          h6 \<leftarrow> describe h5 (s_comment st) enumeration;
          Some (None,
                finish_brace (st\<lparr>s_typedefnode := typedefnode, s_enumeration := Some enumeration,
                                 s_type := type'\<rparr>), h6) }"

text \<open>
  \<^verbatim>\<open>case '{'\<close>. The first component of the result asks the loop for a recursive scan: the root
  of that scan and whether it is the \<^verbatim>\<open>extern\<close> block (which scans into the same tree).
\<close>

definition open_brace ::
  "nat \<Rightarrow> scan_vars \<Rightarrow> heap \<Rightarrow> ((nat \<times> bool) option \<times> scan_vars \<times> heap) option" where
  "open_brace tree st h =
     (case s_function st of
        Some f \<Rightarrow>
          do { h1 \<leftarrow> (case s_fstructclass st of
                       Some fs \<Rightarrow> sort_node h (Some fs) (Some f)
                     | None \<Rightarrow> sort_node h (Some tree) (Some f));
               Some (None, finish_brace (st\<lparr>s_fstructclass := None\<rparr>), h1) }
      | None \<Rightarrow>
         (case s_type st of
            None \<Rightarrow> Some (None, finish_brace st, h)
          | Some ty \<Rightarrow>
              do { kind \<leftarrow> brace_kind_of h ty;
                   case kind of
                     AGGREGATE \<Rightarrow> open_aggregate tree st h ty
                   | ENUMERATION \<Rightarrow> open_enumeration tree st h ty
                   | EXTERN \<Rightarrow> Some (Some (tree, True), st, h)
                   | OTHER \<Rightarrow> do { h1 \<leftarrow> mxmlDelete h ty;
                                    Some (None, finish_brace (st\<lparr>s_type := None\<rparr>), h1) } }))"

text \<open>What the caller does when the recursive scan has returned 0.\<close>

definition after_scan :: "bool \<Rightarrow> scan_vars \<Rightarrow> scan_vars" where
  "after_scan is_extern st =
     (if is_extern then finish_brace st else st\<lparr>s_structclass := None\<rparr>)"

text \<open>\<^verbatim>\<open>case '}'\<close>: the variables reset before the test of \<^verbatim>\<open>braces\<close>.\<close>

definition close_brace :: "scan_vars \<Rightarrow> scan_vars" where
  "close_brace st =
     st\<lparr>s_scope := (if s_structclass st \<noteq> None then None else s_scope st),
        s_enumeration := (if s_typedefnode st = None then None else s_enumeration st),
        s_constant := None,
        s_structclass := None\<rparr>"

definition close_paren :: "scan_vars \<Rightarrow> heap \<Rightarrow> (scan_vars \<times> heap) option" where
  "close_paren st h =
     do { h1 \<leftarrow> (if s_parens st \<noteq> 0 then type_token st h (Some False) '')'' else Some h);
          (st2, h2) \<leftarrow>
            (case (s_function st, s_type st) of
               (Some f, Some ty) \<Rightarrow>
                 if s_parens st = 0 then
                   do { tn \<leftarrow> node_at h1 ty;
                        if 2 \<le> length (n_children tn) then
                          do { (g, v) \<leftarrow> add_variable h1 (Some f) ''argument'' (Some ty);
                               Some (st\<lparr>s_variable := v, s_type := None\<rparr>, g) }
                        else do { g \<leftarrow> mxmlDelete h1 ty; Some (st\<lparr>s_type := None\<rparr>, g) } }
                 else Some (st, h1)
             | _ \<Rightarrow> Some (st, h1));
          Some (st2\<lparr>s_parens := s_parens st2 - 1\<rparr>, h2) }"

text \<open>\<^verbatim>\<open>case ';'\<close>, first part: a pending function.\<close>

definition semicolon_function :: "nat \<Rightarrow> scan_vars \<Rightarrow> heap \<Rightarrow> (scan_vars \<times> heap) option" where
  "semicolon_function tree st h =
     (case s_function st of
        None \<Rightarrow> Some (st, h)
      | Some f \<Rightarrow>
          do { tname \<leftarrow> element_name_at h tree;
               h1 \<leftarrow> (if tname = ''class'' then sort_node h (Some tree) (Some f)
                      else mxmlDelete h f);
               Some (st\<lparr>s_function := None, s_variable := None\<rparr>, h1) })"

text \<open>\<^verbatim>\<open>case ';'\<close>, second part: a pending type.\<close>

definition semicolon_type :: "nat \<Rightarrow> scan_vars \<Rightarrow> heap \<Rightarrow> (scan_vars \<times> heap) option" where
  "semicolon_type tree st h =
     (case s_type st of
        None \<Rightarrow> Some (st, h)
      | Some ty \<Rightarrow>
          do { tn \<leftarrow> node_at h ty;
               is_typedef \<leftarrow> (case n_children tn of
                                [] \<Rightarrow> Some False
                              | a # _ \<Rightarrow> do { s \<leftarrow> text_string h a; Some (s = ''typedef'') });
               if is_typedef then
                 do { (h1, typedefnode) \<leftarrow> mxmlNewElement h None ''typedef'';
                      paren \<leftarrow> from_text h1 (\<lambda>s. s = ''('') (tl (n_children tn));
                      cand \<leftarrow> (if paren = [] then Some []
                               else from_text h1 (\<lambda>s. s \<noteq> ''*'') (tl paren));
                      let node = (if cand = [] then last (n_children tn) else hd cand);
                      nm \<leftarrow> text_string h1 node;
                      h2 \<leftarrow> mxmlElementSetAttr h1 typedefnode ''name'' nm;
                      h3 \<leftarrow> sort_node h2 (Some tree) (Some typedefnode);
                      h4 \<leftarrow> (if hd (n_children tn) \<noteq> node then mxmlDelete h3 (hd (n_children tn))
                             else Some h3);
                      h5 \<leftarrow> mxmlDelete h4 node;
                      c \<leftarrow> first_child h5 ty;
                      h6 \<leftarrow> (case c of None \<Rightarrow> Some h5 | Some x \<Rightarrow> clear_whitespace h5 x);
                      h7 \<leftarrow> mxmlAdd h6 typedefnode MXML_ADD_AFTER None ty;
                      Some (st\<lparr>s_typedefnode := Some typedefnode, s_type := None\<rparr>, h7) }
               else
                 (case (s_typedefnode st, s_enumeration st) of
                    (Some t, Some e) \<Rightarrow>
                      do { c \<leftarrow> first_child h ty;
                           node \<leftarrow> c;
                           nm \<leftarrow> text_string h node;
                           h1 \<leftarrow> mxmlElementSetAttr h t ''name'' nm;
                           h2 \<leftarrow> sort_node h1 (Some tree) (Some t);
                           h3 \<leftarrow> mxmlDelete h2 ty;
                           (h4, ty2) \<leftarrow> mxmlNewElement h3 (Some t) ''type'';
                           (h5, w) \<leftarrow> mxmlNewText h4 (Some ty2) False ''enum'';
                           en \<leftarrow> mxmlElementGetAttr h5 e ''name'';
                           h6 \<leftarrow> (case en of
                                    None \<Rightarrow> Some h5
                                  | Some s \<Rightarrow> map_option fst (mxmlNewText h5 (Some ty2) True s));
                           Some (st\<lparr>s_enumeration := None, s_type := None\<rparr>, h6) }
                  | _ \<Rightarrow> do { h1 \<leftarrow> mxmlDelete h ty; Some (st\<lparr>s_type := None\<rparr>, h1) }) })"


subsection \<open>The end of an identifier\<close>

text \<open>A new \<^verbatim>\<open>function\<close> node: identifier followed by \<^verbatim>\<open>(\<close> with no function pending.\<close>

definition start_function :: "nat \<Rightarrow> scan_vars \<Rightarrow> heap \<Rightarrow> nat \<Rightarrow> (scan_vars \<times> heap) option" where
  "start_function tree st h ty =
     do { (h1, function) \<leftarrow> mxmlNewElement h None ''function'';
          let buffer = c_string (s_buffer st);
          let colon = dropWhile (\<lambda>c. c \<noteq> CHR '':'') buffer;
          let qualified = (take 2 colon = ''::'');
          fsc \<leftarrow> (if qualified then
                     do { cls \<leftarrow> mxmlFindElement h1 tree tree (Some ''class'') (Some ''name'')
                                   (Some (takeWhile (\<lambda>c. c \<noteq> CHR '':'') buffer)) MXML_DESCEND_FIRST;
                          case cls of
                            Some x \<Rightarrow> Some (Some x)
                          | None \<Rightarrow> mxmlFindElement h1 tree tree (Some ''struct'') (Some ''name'')
                                      (Some (takeWhile (\<lambda>c. c \<noteq> CHR '':'') buffer))
                                      MXML_DESCEND_FIRST }
                   else Some (s_fstructclass st));
          h2 \<leftarrow> mxmlElementSetAttr h1 function ''name'' (if qualified then drop 2 colon else buffer);
          h3 \<leftarrow> (case s_scope st of
                   None \<Rightarrow> Some h2
                 | Some sc \<Rightarrow> mxmlElementSetAttr h2 function ''scope'' sc);
          lc \<leftarrow> last_child h3 ty;
          is_void \<leftarrow> (case lc of
                        None \<Rightarrow> Some True
                      | Some l \<Rightarrow> do { s \<leftarrow> text_string h3 l; Some (s = ''void'') });
          h4 \<leftarrow> (if is_void then mxmlDelete h3 ty
                 else do { (g1, returnvalue) \<leftarrow> mxmlNewElement h3 (Some function) ''returnvalue'';
                           g2 \<leftarrow> mxmlAdd g1 returnvalue MXML_ADD_AFTER None ty;
                           describe g2 (s_comment st) returnvalue });
          h5 \<leftarrow> describe h4 (s_comment st) function;
          Some (st\<lparr>s_function := Some function, s_fstructclass := fsc, s_type := None\<rparr>, h5) }"

text \<open>An identifier followed by \<^verbatim>\<open>;\<close> or \<^verbatim>\<open>,\<close> with a non-empty type and no function pending.\<close>

definition end_declaration :: "nat \<Rightarrow> scan_vars \<Rightarrow> heap \<Rightarrow> nat \<Rightarrow> (scan_vars \<times> heap) option" where
  "end_declaration tree st h ty =
     (let buffer = c_string (s_buffer st) in
      if s_typedefnode st \<noteq> None \<or> s_structclass st \<noteq> None then
        do { h1 \<leftarrow> (case s_typedefnode st of
                     None \<Rightarrow> Some h
                   | Some t \<Rightarrow> do { g \<leftarrow> mxmlElementSetAttr h t ''name'' buffer;
                                    sort_node g (Some tree) (Some t) });
             (h2, sc) \<leftarrow> (case s_structclass st of
                           None \<Rightarrow> Some (h1, None)
                         | Some s \<Rightarrow>
                             do { nm \<leftarrow> mxmlElementGetAttr h1 s ''name'';
                                  if nm = None then
                                    do { g \<leftarrow> mxmlElementSetAttr h1 s ''name'' buffer;
                                         g' \<leftarrow> sort_node g (Some tree) (Some s);
                                         Some (g', None) }
                                  else Some (h1, Some s) });
             h3 \<leftarrow> (case s_typedefnode st of
                     Some t \<Rightarrow> mxmlAdd h2 t MXML_ADD_BEFORE None ty
                   | None \<Rightarrow> mxmlDelete h2 ty);
             Some (st\<lparr>s_structclass := sc, s_type := None, s_typedefnode := None\<rparr>, h3) }
      else
        do { c \<leftarrow> first_child h ty;
             first \<leftarrow> (case c of None \<Rightarrow> Some [] | Some a \<Rightarrow> text_string h a);
             if c \<noteq> None \<and> first = ''typedef'' then
               do { (h1, typedefnode) \<leftarrow> mxmlNewElement h None ''typedef'';
                    h2 \<leftarrow> mxmlElementSetAttr h1 typedefnode ''name'' buffer;
                    a \<leftarrow> c;
                    h3 \<leftarrow> mxmlDelete h2 a;
                    h4 \<leftarrow> sort_node h3 (Some tree) (Some typedefnode);
                    c' \<leftarrow> first_child h4 ty;
                    h5 \<leftarrow> (case c' of None \<Rightarrow> Some h4 | Some x \<Rightarrow> clear_whitespace h4 x);
                    h6 \<leftarrow> mxmlAdd h5 typedefnode MXML_ADD_AFTER None ty;
                    Some (st\<lparr>s_typedefnode := Some typedefnode, s_type := None\<rparr>, h6) }
             else if s_parens st = 0 then
               do { tname \<leftarrow> (if c \<noteq> None \<and> first = ''static'' then element_name_at h tree
                              else Some []);
                    if c \<noteq> None \<and> first = ''static'' \<and> tname = ''mxmldoc'' then
                      do { h1 \<leftarrow> mxmlDelete h ty; Some (st\<lparr>s_type := None\<rparr>, h1) }
                    else
                      do { ws \<leftarrow> word_flag h ty;
                           (h1, w) \<leftarrow> mxmlNewText h (Some ty) ws buffer;
                           (h2, variable) \<leftarrow> add_variable h1 None ''variable'' (Some ty);
                           h3 \<leftarrow> sort_node h2 (Some tree) variable;
                           h4 \<leftarrow> (case (s_scope st, variable) of
                                    (Some sc, Some v) \<Rightarrow> mxmlElementSetAttr h3 v ''scope'' sc
                                  | _ \<Rightarrow> Some h3);
                           Some (st\<lparr>s_variable := variable, s_type := None\<rparr>, h4) } }
             else Some (st, h) })"

text \<open>
  The text \<^verbatim>\<open>if (!braces) ... else if (enumeration ...) ... else if (type) ...\<close> that runs when a
  character ends the identifier in \<^verbatim>\<open>buffer\<close>; \<open>ch\<close> is that character.
\<close>

definition scope_keyword :: "string \<Rightarrow> string option" where
  "scope_keyword b =
     (if b = ''public'' \<or> b = ''public:'' then Some ''public''
      else if b = ''private'' \<or> b = ''private:'' then Some ''private''
      else if b = ''protected'' \<or> b = ''protected:'' then Some ''protected''
      else None)"

definition end_identifier :: "nat \<Rightarrow> scan_vars \<Rightarrow> heap \<Rightarrow> char \<Rightarrow> (scan_vars \<times> heap) option" where
  "end_identifier tree st h ch =
     (let buffer = c_string (s_buffer st) in
      if s_braces st = 0 then
        do { empty_type \<leftarrow> (case s_type st of
                              None \<Rightarrow> Some True
                            | Some ty \<Rightarrow> do { c \<leftarrow> first_child h ty; Some (c = None) });
             tname \<leftarrow> (if empty_type then element_name_at h tree else Some []);
             if empty_type \<and> tname = ''class'' \<and> scope_keyword buffer \<noteq> None then
               Some (st\<lparr>s_scope := scope_keyword buffer\<rparr>, h)
             else
               do { (h1, ty) \<leftarrow> (case s_type st of
                                  Some ty \<Rightarrow> Some (h, ty)
                                | None \<Rightarrow> mxmlNewElement h None ''type'');
                    let st1 = st\<lparr>s_type := Some ty\<rparr>;
                    c \<leftarrow> first_child h1 ty;
                    if s_function st = None \<and> ch = CHR ''('' then
                      do { first \<leftarrow> (case c of None \<Rightarrow> Some [] | Some a \<Rightarrow> text_string h1 a);
                           if c \<noteq> None \<and> first = ''extern'' then
                             do { h2 \<leftarrow> mxmlDelete h1 ty; Some (st1\<lparr>s_type := None\<rparr>, h2) }
                           else
                             do { tn \<leftarrow> (if c \<noteq> None \<and> first = ''static''
                                         then element_name_at h1 tree else Some []);
                                  if c \<noteq> None \<and> first = ''static'' \<and> tn = ''mxmldoc'' then
                                    do { h2 \<leftarrow> mxmlDelete h1 ty; Some (st1\<lparr>s_type := None\<rparr>, h2) }
                                  else start_function tree st1 h1 ty } }
                    else if s_function st \<noteq> None \<and>
                            ((ch = CHR '')'' \<and> s_parens st = 1) \<or> ch = CHR '','') then
                      (if buffer \<noteq> ''void'' then
                         do { ws \<leftarrow> word_flag h1 ty;
                              (h2, w) \<leftarrow> mxmlNewText h1 (Some ty) ws buffer;
                              (h3, v) \<leftarrow> add_variable h2 (s_function st) ''argument'' (Some ty);
                              Some (st1\<lparr>s_variable := v, s_type := None\<rparr>, h3) }
                       else do { h2 \<leftarrow> mxmlDelete h1 ty; Some (st1\<lparr>s_type := None\<rparr>, h2) })
                    else if c \<noteq> None \<and> s_function st = None \<and>
                            (ch = CHR '';'' \<or> ch = CHR '','') then
                      end_declaration tree st1 h1 ty
                    else
                      do { ws \<leftarrow> word_flag h1 ty;
                           (h2, w) \<leftarrow> mxmlNewText h1 (Some ty) ws buffer;
                           Some (st1, h2) } } }
      else if s_enumeration st \<noteq> None \<and> \<not> (case buffer of [] \<Rightarrow> False | c # _ \<Rightarrow> isdigit c) then
        do { (h1, constant) \<leftarrow> mxmlNewElement h None ''constant'';
             h2 \<leftarrow> mxmlElementSetAttr h1 constant ''name'' buffer;
             h3 \<leftarrow> sort_node h2 (s_enumeration st) (Some constant);
             Some (st\<lparr>s_constant := Some constant\<rparr>, h3) }
      else (case s_type st of
              None \<Rightarrow> Some (st, h)
            | Some ty \<Rightarrow> do { h1 \<leftarrow> mxmlDelete h ty; Some (st\<lparr>s_type := None\<rparr>, h1) }))"

definition identifier_char :: "scan_vars \<Rightarrow> char \<Rightarrow> bool" where
  "identifier_char st ch =
     (isalnum ch \<or> ch = CHR ''_'' \<or> ch = CHR ''['' \<or> ch = CHR '']'' \<or>
      (ch = CHR '','' \<and> (1 < s_parens st \<or>
          (s_type st \<noteq> None \<and> s_enumeration st = None \<and> s_function st = None))) \<or>
      ch = CHR '':'' \<or> ch = CHR ''.'' \<or> ch = CHR ''~'')"


subsection \<open>One character\<close>

text \<open>
  The input stream is the list of characters not yet read: \<^verbatim>\<open>getc\<close> takes the head (and
  returns \<^verbatim>\<open>EOF\<close> on the empty list), \<^verbatim>\<open>ungetc\<close> puts a character back in front.

  The inner loop of \<^verbatim>\<open>case '\n'\<close> in a block comment: it skips the white space and the
  asterisks that begin the following lines, keeps blank lines as line feeds, and stops at the
  end of the comment, at a character of the comment text, or at the end of the input. The
  result is whether \<^verbatim>\<open>*/\<close> was found, the last character read (\<open>None\<close> for \<^verbatim>\<open>EOF\<close>), the
  buffer and the rest of the input.
\<close>

fun comment_newline :: "string \<Rightarrow> string \<Rightarrow> bool \<times> char option \<times> string \<times> string" where
  "comment_newline buf [] = (False, None, buf, [])"
| "comment_newline buf (c # cs) =
     (if c = CHR ''*'' then
        (case cs of
           [] \<Rightarrow> (False, None, buf, [])
         | d # ds \<Rightarrow> if d = CHR ''/'' then (True, Some d, buf, ds) else comment_newline buf cs)
      else if c = CHR 0x0A \<and> buf \<noteq> [] \<and> buffer_room buf then comment_newline (buf @ [c]) cs
      else if \<not> isspace c then (False, Some c, buf, cs)
      else comment_newline buf cs)"

definition unget :: "char option \<Rightarrow> string \<Rightarrow> string" where
  "unget ch inp = (case ch of None \<Rightarrow> inp | Some c \<Rightarrow> c # inp)"

text \<open>The characters of \<^verbatim>\<open>STATE_NONE\<close> other than the braces; the result is the rest of the input too.\<close>

definition none_char ::
  "nat \<Rightarrow> scan_vars \<Rightarrow> heap \<Rightarrow> char \<Rightarrow> string \<Rightarrow> (scan_vars \<times> heap \<times> string) option" where
  "none_char tree st h ch inp =
     (if ch = CHR ''/'' then
        (let st1 = st\<lparr>s_buffer := []\<rparr> in
         case inp of
           [] \<Rightarrow> do { h1 \<leftarrow> type_token st1 h None ''/''; Some (st1, h1, []) }
         | c # cs \<Rightarrow>
             if c = CHR ''*'' then Some (st1\<lparr>s_state := STATE_C_COMMENT\<rparr>, h, cs)
             else if c = CHR ''/'' then Some (st1\<lparr>s_state := STATE_CXX_COMMENT\<rparr>, h, cs)
             else do { h1 \<leftarrow> type_token st1 h None ''/''; Some (st1, h1, c # cs) })
      else if ch = CHR ''#'' then Some (st\<lparr>s_state := STATE_PREPROCESSOR\<rparr>, h, inp)
      else if ch = CHR 0x27 then Some (st\<lparr>s_state := STATE_CHARACTER, s_buffer := [ch]\<rparr>, h, inp)
      else if ch = CHR 0x22 then Some (st\<lparr>s_state := STATE_STRING, s_buffer := [ch]\<rparr>, h, inp)
      else if ch = CHR ''('' then
        do { h1 \<leftarrow> type_token st h (Some False) ''('';
             Some (st\<lparr>s_parens := Suc (s_parens st)\<rparr>, h1, inp) }
      else if ch = CHR '')'' then
        do { (st1, h1) \<leftarrow> close_paren st h; Some (st1, h1, inp) }
      else if ch = CHR '';'' then
        do { (st1, h1) \<leftarrow> semicolon_function tree st h;
             (st2, h2) \<leftarrow> semicolon_type tree st1 h1;
             Some (st2, h2, inp) }
      else if ch = CHR '':'' then
        do { h1 \<leftarrow> type_token st h (Some True) '':''; Some (st, h1, inp) }
      else if ch = CHR ''*'' then
        do { h1 \<leftarrow> type_token st h None ''*''; Some (st, h1, inp) }
      else if ch = CHR '','' then
        do { h1 \<leftarrow> (if s_enumeration st = None then type_token st h (Some False) '','' else Some h);
             Some (st, h1, inp) }
      else if ch = CHR ''&'' then
        do { h1 \<leftarrow> type_token st h (Some True) ''&''; Some (st, h1, inp) }
      else if ch = CHR ''+'' then
        do { h1 \<leftarrow> type_token st h None ''+''; Some (st, h1, inp) }
      else if ch = CHR ''-'' then
        do { h1 \<leftarrow> type_token st h None ''-''; Some (st, h1, inp) }
      else if ch = CHR ''='' then
        do { h1 \<leftarrow> type_token st h None ''=''; Some (st, h1, inp) }
      else if isalnum ch \<or> ch = CHR ''_'' \<or> ch = CHR ''.'' \<or> ch = CHR '':'' \<or> ch = CHR ''~'' then
        Some (st\<lparr>s_state := STATE_IDENTIFIER, s_buffer := [ch]\<rparr>, h, inp)
      else Some (st, h, inp))"

text \<open>A string or character literal; \<open>quote\<close> is the closing character of the state.\<close>

definition literal_char ::
  "char \<Rightarrow> scan_vars \<Rightarrow> heap \<Rightarrow> char \<Rightarrow> string \<Rightarrow> (scan_vars \<times> heap \<times> string) option" where
  "literal_char quote st h ch inp =
     do { b \<leftarrow> put_unchecked (s_buffer st) ch;
          if ch = CHR 0x5C then
            do { b' \<leftarrow> put_unchecked b (case inp of [] \<Rightarrow> CHR 0xFF | c # _ \<Rightarrow> c);
                 Some (st\<lparr>s_buffer := b'\<rparr>, h, drop 1 inp) }
          else if ch = quote then
            do { b' \<leftarrow> terminate b;
                 h1 \<leftarrow> (case s_type st of
                          None \<Rightarrow> Some h
                        | Some ty \<Rightarrow> do { c \<leftarrow> first_child h ty;
                                          map_option fst (mxmlNewText h (Some ty) (c \<noteq> None) (c_string b')) });
                 Some (st\<lparr>s_state := STATE_NONE, s_buffer := b'\<rparr>, h1, inp) }
          else Some (st\<lparr>s_buffer := b\<rparr>, h, inp) }"

definition c_comment_char ::
  "nat \<Rightarrow> scan_vars \<Rightarrow> heap \<Rightarrow> char \<Rightarrow> string \<Rightarrow> (scan_vars \<times> heap \<times> string) option" where
  "c_comment_char tree st h ch inp =
     (if ch = CHR 0x0A then
        (case comment_newline (s_buffer st) inp of
           (ended, last_ch, buf, rest) \<Rightarrow>
             do { (st1, h1) \<leftarrow> (if ended
                                then comment_done False tree
                                       (st\<lparr>s_buffer := buf, s_state := STATE_NONE\<rparr>) h
                                else Some (st\<lparr>s_buffer := buf\<rparr>, h));
                  Some (st1\<lparr>s_buffer := (if buf \<noteq> [] \<and> buffer_room buf then buf @ [CHR 0x0A] else buf)\<rparr>,
                        h1, unget last_ch rest) })
      else if ch = CHR ''/'' \<and> s_buffer st \<noteq> [] \<and> last (s_buffer st) = CHR ''*'' then
        do { (st1, h1) \<leftarrow>
               comment_done False tree
                 (st\<lparr>s_buffer := rev (dropWhile (\<lambda>c. c = CHR ''*'' \<or> isspace c) (rev (s_buffer st))),
                     s_state := STATE_NONE\<rparr>) h;
             Some (st1, h1, inp) }
      else if ch = CHR '' '' \<and> s_buffer st = [] then Some (st, h, inp)
      else Some (st\<lparr>s_buffer := put_checked (s_buffer st) ch\<rparr>, h, inp))"

definition cxx_comment_char ::
  "nat \<Rightarrow> scan_vars \<Rightarrow> heap \<Rightarrow> char \<Rightarrow> string \<Rightarrow> (scan_vars \<times> heap \<times> string) option" where
  "cxx_comment_char tree st h ch inp =
     (if ch = CHR 0x0A then
        do { (st1, h1) \<leftarrow> comment_done True tree (st\<lparr>s_state := STATE_NONE\<rparr>) h;
             Some (st1, h1, inp) }
      else if ch = CHR '' '' \<and> s_buffer st = [] then Some (st, h, inp)
      else Some (st\<lparr>s_buffer := put_checked (s_buffer st) ch\<rparr>, h, inp))"

definition identifier_step ::
  "nat \<Rightarrow> scan_vars \<Rightarrow> heap \<Rightarrow> char \<Rightarrow> string \<Rightarrow> (scan_vars \<times> heap \<times> string) option" where
  "identifier_step tree st h ch inp =
     (if identifier_char st ch then Some (st\<lparr>s_buffer := put_checked (s_buffer st) ch\<rparr>, h, inp)
      else do { (st1, h1) \<leftarrow> end_identifier tree (st\<lparr>s_state := STATE_NONE\<rparr>) h ch;
                Some (st1, h1, ch # inp) })"

text \<open>The body of the \<^verbatim>\<open>while\<close> loop for every character except the two braces of \<^verbatim>\<open>STATE_NONE\<close>.\<close>

definition plain_step ::
  "nat \<Rightarrow> scan_vars \<Rightarrow> heap \<Rightarrow> char \<Rightarrow> string \<Rightarrow> (scan_vars \<times> heap \<times> string) option" where
  "plain_step tree st h ch inp =
     (case s_state st of
        STATE_NONE \<Rightarrow> none_char tree st h ch inp
      | STATE_PREPROCESSOR \<Rightarrow>
          if ch = CHR 0x0A then Some (st\<lparr>s_state := STATE_NONE\<rparr>, h, inp)
          else if ch = CHR 0x5C then Some (st, h, drop 1 inp)
          else Some (st, h, inp)
      | STATE_C_COMMENT \<Rightarrow> c_comment_char tree st h ch inp
      | STATE_CXX_COMMENT \<Rightarrow> cxx_comment_char tree st h ch inp
      | STATE_STRING \<Rightarrow> literal_char (CHR 0x22) st h ch inp
      | STATE_CHARACTER \<Rightarrow> literal_char (CHR 0x27) st h ch inp
      | STATE_IDENTIFIER \<Rightarrow> identifier_step tree st h ch inp)"

subsection \<open>The loop and the recursion\<close>

datatype scan_outcome = OutOfFuel | Undefined | Returned int heap string

text \<open>"Initialize the finite state machine".\<close>

definition init_scan :: "heap \<Rightarrow> nat \<Rightarrow> (scan_vars \<times> heap) option" where
  "init_scan h tree =
     do { (h1, comment) \<leftarrow> mxmlNewElement h None ''temp'';
          tname \<leftarrow> element_name_at h1 tree;
          Some (\<lparr>s_state = STATE_NONE, s_braces = 0, s_parens = 0, s_buffer = [],
                 s_scope = (if tname = ''class'' then Some ''private'' else None),
                 s_comment = comment, s_constant = None, s_enumeration = None,
                 s_function = None, s_fstructclass = None, s_structclass = None,
                 s_typedefnode = None, s_variable = None, s_type = None\<rparr>, h1) }"

text \<open>\<^verbatim>\<open>mxmlDelete(comment); return (rc);\<close>\<close>

definition leave :: "int \<Rightarrow> scan_vars \<Rightarrow> heap \<Rightarrow> string \<Rightarrow> scan_outcome" where
  "leave rc st h inp =
     (case mxmlDelete h (s_comment st) of
        None \<Rightarrow> Undefined
      | Some h1 \<Rightarrow> Returned rc h1 inp)"

text \<open>
  The \<^verbatim>\<open>while ((ch = getc(fp)) != EOF)\<close> loop of one activation of \<^verbatim>\<open>scan_file\<close>, with the
  recursive activations for aggregate bodies and \<^verbatim>\<open>extern\<close> blocks. The first argument bounds
  the number of iterations of every activation; \<open>OutOfFuel\<close> says that the bound was too small,
  \<open>Undefined\<close> that the C program dereferenced an invalid pointer or overran a buffer.
\<close>

fun scan_loop :: "nat \<Rightarrow> nat \<Rightarrow> scan_vars \<Rightarrow> heap \<Rightarrow> string \<Rightarrow> scan_outcome" where
  "scan_loop 0 tree st h inp = OutOfFuel"
| "scan_loop (Suc k) tree st h [] = leave 0 st h []"
| "scan_loop (Suc k) tree st h (ch # inp) =
     (if s_state st = STATE_NONE \<and> ch = CHR ''{'' then
        (case open_brace tree st h of
           None \<Rightarrow> Undefined
         | Some (None, st1, h1) \<Rightarrow> scan_loop k tree st1 h1 inp
         | Some (Some (root, is_extern), st1, h1) \<Rightarrow>
             (case init_scan h1 root of
                None \<Rightarrow> Undefined
              | Some (st0, h0) \<Rightarrow>
                  (case scan_loop k root st0 h0 inp of
                     Returned rc h2 inp2 \<Rightarrow>
                       if rc \<noteq> 0 then leave (- 1) st1 h2 inp2
                       else scan_loop k tree (after_scan is_extern st1) h2 inp2
                   | other \<Rightarrow> other)))
      else if s_state st = STATE_NONE \<and> ch = CHR ''}'' then
        (if 0 < s_braces st
         then scan_loop k tree ((close_brace st)\<lparr>s_braces := s_braces st - 1\<rparr>) h inp
         else leave 0 (close_brace st) h inp)
      else
        (case plain_step tree st h ch inp of
           None \<Rightarrow> Undefined
         | Some (st1, h1, inp1) \<Rightarrow> scan_loop k tree st1 h1 inp1))"

definition scan_file :: "nat \<Rightarrow> string \<Rightarrow> heap \<Rightarrow> string \<Rightarrow> nat \<Rightarrow> scan_outcome" where
  "scan_file fuel filename h fp tree =
     (case init_scan h tree of
        None \<Rightarrow> Undefined
      | Some (st0, h0) \<Rightarrow> scan_loop fuel tree st0 h0 fp)"


section \<open>Specification-side notions for the scanner\<close>

text \<open>
  \<open>gone h v\<close>: the cell of \<open>v\<close> has been freed and no live node of the store lists \<open>v\<close> among
  its children, so \<open>v\<close> is part of no tree. \<open>parent_ranked\<close> is the half of \<open>ranked\<close> that
  survives while a node is being unlinked. \<open>keeps_freed h g\<close>: going from \<open>h\<close> to \<open>g\<close> no freed
  cell of \<open>h\<close> comes back to life.
\<close>

definition gone :: "heap \<Rightarrow> nat \<Rightarrow> bool" where
  "gone h v = (node_at h v = None \<and> list_all (\<lambda>cell. case cell of None \<Rightarrow> True
                 | Some pn \<Rightarrow> v \<notin> set (n_children pn)) h)"



definition keeps_freed :: "heap \<Rightarrow> heap \<Rightarrow> bool" where
  "keeps_freed h g = (length h \<le> length g \<and>
     list_all (\<lambda>x. node_at h x = None \<longrightarrow> node_at g x = None) [0..<length h])"






text \<open>
  The measure of the loop: every iteration consumes input except the one that ends an
  identifier, which puts the character back and leaves \<^verbatim>\<open>STATE_IDENTIFIER\<close>.
\<close>

definition pending :: "scan_vars \<Rightarrow> nat" where
  "pending st = (if s_state st = STATE_IDENTIFIER then 1 else 0)"

section \<open>A new documentation tree\<close>

text \<open>
  Modelled from the spec: \<^verbatim>\<open>mxmlNewXML\<close> belongs to the Mini-XML library and is not part of
  \<^verbatim>\<open>mxmldoc.c\<close>. As the library documents it, the call creates an element without parent whose
  name is the XML declaration for the given version, \<^verbatim>\<open>1.0\<close> when the version is \<^verbatim>\<open>NULL\<close>.
\<close>

definition xml_declaration :: string where
  "xml_declaration =
     ''?xml version='' @ [CHR 0x22] @ ''1.0'' @ [CHR 0x22] @
     '' encoding='' @ [CHR 0x22] @ ''utf-8'' @ [CHR 0x22] @ ''?''"

definition mxmlNewXML :: "heap \<Rightarrow> (heap \<times> nat) option" where
  "mxmlNewXML h = mxmlNewElement h None xml_declaration"

text \<open>\<^verbatim>\<open>new_documentation\<close>: the result is the store, the document node and the \<^verbatim>\<open>mxmldoc\<close> node.\<close>

definition new_documentation :: "heap \<Rightarrow> (heap \<times> nat \<times> nat) option" where
  "new_documentation h =
     do { (h1, doc) \<leftarrow> mxmlNewXML h;
          (h2, mxmldoc) \<leftarrow> mxmlNewElement h1 (Some doc) ''mxmldoc'';
          h3 \<leftarrow> mxmlElementSetAttr h2 mxmldoc ''xmlns'' ''http://www.easysw.com'';
          h4 \<leftarrow> mxmlElementSetAttr h3 mxmldoc ''xmlns:xsi''
                  ''http://www.w3.org/2001/XMLSchema-instance'';
          h5 \<leftarrow> mxmlElementSetAttr h4 mxmldoc ''xsi:schemaLocation''
                  ''http://www.minixml.org/mxmldoc.xsd'';
          Some (h5, doc, mxmldoc) }"

text \<open>
  What \<^verbatim>\<open>main\<close> does with the first source file when no XML file was loaded:
  \<^verbatim>\<open>doc = new_documentation(&mxmldoc)\<close> on the empty store, then
  \<^verbatim>\<open>scan_file(argv[i], fp, mxmldoc)\<close>.
\<close>

definition scan_new :: "nat \<Rightarrow> string \<Rightarrow> string \<Rightarrow> scan_outcome" where
  "scan_new fuel filename fp =
     (case new_documentation [] of
        None \<Rightarrow> Undefined
      | Some (h, doc, mxmldoc) \<Rightarrow> scan_file fuel filename h fp mxmldoc)"

section \<open>Reading a tree\<close>

text \<open>Queries used to state what a scan has built: the children of a node, the live nodes
  that are elements of a given name, the string of a text node, and the words of the \<^verbatim>\<open>type\<close>
  children of a declaration.\<close>

definition children :: "heap \<Rightarrow> nat \<Rightarrow> nat list" where
  "children h p = (case node_at h p of None \<Rightarrow> [] | Some n \<Rightarrow> n_children n)"

definition is_element :: "heap \<Rightarrow> string \<Rightarrow> nat \<Rightarrow> bool" where
  "is_element h kind p =
     (case node_at h p of None \<Rightarrow> False | Some n \<Rightarrow> element_name (n_value n) = Some kind)"

definition elements :: "heap \<Rightarrow> string \<Rightarrow> nat list" where
  "elements h kind = filter (is_element h kind) [0..<length h]"

definition text_of :: "heap \<Rightarrow> nat \<Rightarrow> string" where
  "text_of h w =
     (case node_at h w of
        None \<Rightarrow> []
      | Some n \<Rightarrow> (case n_value n of Text ws s \<Rightarrow> s | _ \<Rightarrow> []))"

definition type_words :: "heap \<Rightarrow> nat \<Rightarrow> string list" where
  "type_words h v =
     concat (map (\<lambda>t. map (text_of h) (children h t)) (filter (is_element h ''type'') (children h v)))"

definition mxmldoc_attrs :: "(string \<times> string) list" where
  "mxmldoc_attrs =
     [(''xmlns'', ''http://www.easysw.com''),
      (''xmlns:xsi'', ''http://www.w3.org/2001/XMLSchema-instance''),
      (''xsi:schemaLocation'', ''http://www.minixml.org/mxmldoc.xsd'')]"

text \<open>The example of claim C5 and the store its scan produces.\<close>

definition point_input :: string where
  "point_input = ''typedef struct { int x; int y; } point_t;''"

definition point_tree :: heap where
  "point_tree =
     [Some \<lparr>n_parent = None, n_children = [1], n_value = Element xml_declaration []\<rparr>,
      Some \<lparr>n_parent = Some 0, n_children = [6], n_value = Element ''mxmldoc'' mxmldoc_attrs\<rparr>,
      None,
      Some \<lparr>n_parent = Some 6, n_children = [5], n_value = Element ''type'' []\<rparr>,
      None,
      Some \<lparr>n_parent = Some 3, n_children = [], n_value = Text False ''struct''\<rparr>,
      Some \<lparr>n_parent = Some 1, n_children = [3], n_value = Element ''typedef'' [(''name'', ''point_t'')]\<rparr>,
      Some \<lparr>n_parent = None, n_children = [8, 13, 17], n_value = Element ''struct'' []\<rparr>,
      Some \<lparr>n_parent = Some 7, n_children = [], n_value = Element ''description'' []\<rparr>,
      None,
      Some \<lparr>n_parent = Some 13, n_children = [11], n_value = Element ''type'' []\<rparr>,
      Some \<lparr>n_parent = Some 10, n_children = [], n_value = Text False ''int''\<rparr>,
      None,
      Some \<lparr>n_parent = Some 7, n_children = [10], n_value = Element ''variable'' [(''name'', ''x'')]\<rparr>,
      Some \<lparr>n_parent = Some 17, n_children = [15], n_value = Element ''type'' []\<rparr>,
      Some \<lparr>n_parent = Some 14, n_children = [], n_value = Text False ''int''\<rparr>,
      None,
      Some \<lparr>n_parent = Some 7, n_children = [14], n_value = Element ''variable'' [(''name'', ''y'')]\<rparr>]"

section \<open>String and character literals, as the specification describes them\<close>

text \<open>
  \<open>literal_body q inp\<close> reads the input that follows an opening quote \<open>q\<close> the way the
  specification words it: a backslash takes the next character with it, whatever it is, and
  the first quote \<open>q\<close> that is not taken by a backslash ends the literal. The result is the
  text of the literal after the opening quote (closing quote included), the input after the
  literal, and the number of loop iterations spent; \<open>None\<close> when the input ends first.
  \<open>literal_added h ty s g\<close> says how the store \<open>g\<close> differs from \<open>h\<close> when the fragment \<open>s\<close> has been
  appended to the open type \<open>ty\<close>: not at all without a type, else by one new text node that is
  the last child of the type and has its white space flag set iff the type had children.
\<close>

fun literal_body :: "char \<Rightarrow> string \<Rightarrow> (string \<times> string \<times> nat) option" where
  "literal_body q [] = None"
| "literal_body q [c] = (if c \<noteq> CHR 0x5C \<and> c = q then Some ([c], [], 1) else None)"
| "literal_body q (c # d # ds) =
     (if c = CHR 0x5C then map_option (\<lambda>(b, r, n). (c # d # b, r, Suc n)) (literal_body q ds)
      else if c = q then Some ([c], d # ds, 1)
      else map_option (\<lambda>(b, r, n). (c # b, r, Suc n)) (literal_body q (d # ds)))"

definition literal_state :: "char \<Rightarrow> parse_state" where
  "literal_state q = (if q = CHR 0x22 then STATE_STRING else STATE_CHARACTER)"

definition literal_added :: "heap \<Rightarrow> ptr \<Rightarrow> string \<Rightarrow> heap \<Rightarrow> bool" where
  "literal_added h ty s g =
     (case ty of
        None \<Rightarrow> g = h
      | Some t \<Rightarrow>
          length g = Suc (length h) \<and>
          node_at g (length h) =
            Some \<lparr>n_parent = Some t, n_children = [], n_value = Text (children h t \<noteq> []) s\<rparr> \<and>
          children g t = children h t @ [length h] \<and>
          list_all (\<lambda>x. x \<noteq> t \<longrightarrow> node_at g x = node_at h x) [0..<length h])"

text \<open>Examples: the scanner after \<^verbatim>\<open>int\<close> with the type node \<open>2\<close> open, and a prototype \<open>f\<close>
  pending below a root element of a given name.\<close>

definition literal_heap :: heap where
  "literal_heap =
     [Some \<lparr>n_parent = None, n_children = [], n_value = Element ''mxmldoc'' []\<rparr>,
      Some \<lparr>n_parent = None, n_children = [], n_value = Element ''temp'' []\<rparr>,
      Some \<lparr>n_parent = None, n_children = [3], n_value = Element ''type'' []\<rparr>,
      Some \<lparr>n_parent = Some 2, n_children = [], n_value = Text False ''int''\<rparr>]"

definition literal_vars :: scan_vars where
  "literal_vars =
     \<lparr>s_state = STATE_NONE, s_braces = 0, s_parens = 0, s_buffer = ''int'',
      s_scope = None, s_comment = 1, s_constant = None, s_enumeration = None,
      s_function = None, s_fstructclass = None, s_structclass = None,
      s_typedefnode = None, s_variable = None, s_type = Some 2\<rparr>"

definition proto_heap :: "string \<Rightarrow> heap" where
  "proto_heap root =
     [Some \<lparr>n_parent = None, n_children = [], n_value = Element root []\<rparr>,
      Some \<lparr>n_parent = None, n_children = [], n_value = Element ''temp'' []\<rparr>,
      Some \<lparr>n_parent = None, n_children = [], n_value = Element ''function'' [(''name'', ''f'')]\<rparr>]"

definition proto_vars :: scan_vars where
  "proto_vars =
     \<lparr>s_state = STATE_NONE, s_braces = 0, s_parens = 0, s_buffer = ''f'',
      s_scope = None, s_comment = 1, s_constant = None, s_enumeration = None,
      s_function = Some 2, s_fstructclass = None, s_structclass = None,
      s_typedefnode = None, s_variable = None, s_type = None\<rparr>"

section \<open>Facts about the store and the library functions\<close>

lemma node_at_less: "node_at h p = Some n \<Longrightarrow> p < length h"
  by (simp add: node_at_def split: if_splits)

lemma node_at_store: "node_at (store h p n) q = (if q = p \<and> p < length h then Some n else node_at h q)"
  by (simp add: node_at_def store_def)

lemma node_at_release: "node_at (release p h) q = (if q = p then None else node_at h q)"
  by (simp add: node_at_def release_def)

lemma length_store [simp]: "length (store h p n) = length h"
  by (simp add: store_def)

lemma length_release [simp]: "length (release p h) = length h"
  by (simp add: release_def)

lemma consistent_at:
  assumes "consistent h" and "node_at h p = Some pn"
  shows "distinct (n_children pn)"
    and "\<forall>c\<in>set (n_children pn). \<exists>cn. node_at h c = Some cn \<and> n_parent cn = Some p"
    and "\<forall>q. n_parent pn = Some q \<longrightarrow> (\<exists>qn. node_at h q = Some qn \<and> p \<in> set (n_children qn))"
proof -
  have "p < length h" using assms(2) by (rule node_at_less)
  then have "p \<in> set [0..<length h]" by simp
  with assms have *: "distinct (n_children pn) \<and>
      list_all (\<lambda>c. case node_at h c of None \<Rightarrow> False | Some cn \<Rightarrow> n_parent cn = Some p) (n_children pn) \<and>
      (case n_parent pn of None \<Rightarrow> True
       | Some q \<Rightarrow> (case node_at h q of None \<Rightarrow> False | Some qn \<Rightarrow> p \<in> set (n_children qn)))"
    unfolding consistent_def list_all_iff by fastforce
  show "distinct (n_children pn)" using * by simp
  show "\<forall>c\<in>set (n_children pn). \<exists>cn. node_at h c = Some cn \<and> n_parent cn = Some p"
    using * by (auto simp: list_all_iff split: option.splits)
  show "\<forall>q. n_parent pn = Some q \<longrightarrow> (\<exists>qn. node_at h q = Some qn \<and> p \<in> set (n_children qn))"
    using * by (auto split: option.splits)
qed

lemma consistent_distinct:
  "consistent h \<Longrightarrow> node_at h p = Some pn \<Longrightarrow> distinct (n_children pn)"
  by (rule consistent_at)

lemma consistent_child:
  "consistent h \<Longrightarrow> node_at h p = Some pn \<Longrightarrow> c \<in> set (n_children pn) \<Longrightarrow>
     \<exists>cn. node_at h c = Some cn \<and> n_parent cn = Some p"
  using consistent_at(2) by blast

lemma consistent_parent:
  "consistent h \<Longrightarrow> node_at h p = Some pn \<Longrightarrow> n_parent pn = Some q \<Longrightarrow>
     \<exists>qn. node_at h q = Some qn \<and> p \<in> set (n_children qn)"
  using consistent_at(3) by blast

lemma ranked_child:
  assumes "ranked rk h" and "node_at h p = Some pn" and "c \<in> set (n_children pn)"
  shows "rk c < rk p"
proof -
  have "p \<in> set [0..<length h]" using assms(2) node_at_less by simp
  with assms(1,2) have "list_all (\<lambda>c. rk c < rk p) (n_children pn)"
    unfolding ranked_def list_all_iff by fastforce
  then show ?thesis using assms(3) by (simp add: list_all_iff)
qed

lemma rankedI:
  "(\<And>p pn c. node_at h p = Some pn \<Longrightarrow> c \<in> set (n_children pn) \<Longrightarrow> rk c < rk p) \<Longrightarrow> ranked rk h"
  by (auto simp: ranked_def list_all_iff split: option.splits)


lemma sub_heap_refl: "sub_heap h h"
  by (simp add: sub_heap_def)

lemma sub_heap_trans: "sub_heap f g \<Longrightarrow> sub_heap g h \<Longrightarrow> sub_heap f h"
  unfolding sub_heap_def by (metis)

lemma sub_heap_release: "sub_heap (release p h) h"
  by (simp add: sub_heap_def node_at_release)

lemma child_links_sub: "child_links h \<Longrightarrow> sub_heap g h \<Longrightarrow> child_links g"
  unfolding child_links_def sub_heap_def by (metis option.distinct(1))

lemma ranked_sub: "ranked rk h \<Longrightarrow> sub_heap g h \<Longrightarrow> ranked rk g"
  apply (rule rankedI)
  unfolding sub_heap_def by (metis option.distinct(1) ranked_child)

lemma sub_heap_fold:
  "(\<And>c g. c \<in> set cs \<Longrightarrow> sub_heap (f c g) g) \<Longrightarrow> sub_heap (fold f cs h) h"
proof (induction cs arbitrary: h)
  case Nil
  then show ?case by (simp add: sub_heap_refl)
next
  case (Cons c cs)
  have "sub_heap (fold f cs (f c h)) (f c h)" using Cons by simp
  moreover have "sub_heap (f c h) h" using Cons.prems by simp
  ultimately show ?case using sub_heap_trans by auto
qed

lemma sub_heap_free_subtree: "sub_heap (free_subtree k h d) h"
proof (induction k arbitrary: h d)
  case 0
  then show ?case by (simp add: sub_heap_refl)
next
  case (Suc k)
  show ?case
  proof (cases "node_at h d")
    case None
    then show ?thesis by (simp add: sub_heap_refl)
  next
    case (Some dn)
    have "sub_heap (fold (\<lambda>c h'. free_subtree k h' c) (n_children dn) (release d h)) (release d h)"
      by (rule sub_heap_fold) (rule Suc.IH)
    then show ?thesis using Some sub_heap_release sub_heap_trans by auto
  qed
qed

lemma free_subtree_keeps:
  "child_links h \<Longrightarrow> ranked rk h \<Longrightarrow> node_at h x = Some xn \<Longrightarrow> x \<noteq> d \<Longrightarrow>
   (\<forall>q. n_parent xn = Some q \<longrightarrow> rk d < rk q) \<Longrightarrow>
   node_at (free_subtree k h d) x = Some xn"
proof (induction k arbitrary: h d)
  case 0
  then show ?case by simp
next
  case (Suc k)
  show ?case
  proof (cases "node_at h d")
    case None
    then show ?thesis using Suc.prems by simp
  next
    case (Some dn)
    have fold_keeps: "child_links g \<Longrightarrow> ranked rk g \<Longrightarrow> node_at g x = Some xn \<Longrightarrow>
          (\<forall>c\<in>set cs. x \<noteq> c \<and> rk c < rk d) \<Longrightarrow>
          node_at (fold (\<lambda>c h'. free_subtree k h' c) cs g) x = Some xn" for cs g
    proof (induction cs arbitrary: g)
      case Nil
      then show ?case by simp
    next
      case (Cons c cs)
      have keep: "node_at (free_subtree k g c) x = Some xn"
        using Cons.prems Suc.prems(5) by (intro Suc.IH) auto
      have "child_links (free_subtree k g c)" "ranked rk (free_subtree k g c)"
        using Cons.prems child_links_sub ranked_sub sub_heap_free_subtree by blast+
      then show ?case using keep Cons by simp
    qed
    have ne: "x \<noteq> c" if "c \<in> set (n_children dn)" for c
    proof
      assume "x = c"
      then have "n_parent xn = Some d"
        using Suc.prems(1,3) Some that unfolding child_links_def by blast
      then show False using Suc.prems(5) by simp
    qed
    have "node_at (fold (\<lambda>c h'. free_subtree k h' c) (n_children dn) (release d h)) x = Some xn"
    proof (rule fold_keeps)
      show "child_links (release d h)" using Suc.prems(1) child_links_sub sub_heap_release by blast
      show "ranked rk (release d h)" using Suc.prems(2) ranked_sub sub_heap_release by blast
      show "node_at (release d h) x = Some xn" using Suc.prems(3,4) by (simp add: node_at_release)
      show "\<forall>c\<in>set (n_children dn). x \<noteq> c \<and> rk c < rk d"
        using ne ranked_child [OF Suc.prems(2) Some] by blast
    qed
    then show ?thesis using Some by simp
  qed
qed

lemma free_subtree_frees:
  "node_at h d = Some dn \<Longrightarrow> node_at (free_subtree (Suc k) h d) d = None"
proof -
  assume a: "node_at h d = Some dn"
  have "sub_heap (free_subtree (Suc k) h d) (release d h)"
    using a by (simp add: sub_heap_fold sub_heap_free_subtree)
  then show ?thesis unfolding sub_heap_def by (metis node_at_release)
qed

lemma next_in_distinct:
  "distinct (pre @ c # rest) \<Longrightarrow>
     next_in c (pre @ c # rest) = (case rest of [] \<Rightarrow> None | r # _ \<Rightarrow> Some r)"
proof (induction pre)
  case Nil
  then show ?case by (cases rest) auto
next
  case (Cons a pre)
  then have "a \<noteq> c" by auto
  moreover obtain y ys where "pre @ c # rest = y # ys" by (cases pre) auto
  ultimately show ?case using Cons by auto
qed

lemma walk_next_sibling:
  assumes "consistent h" and "ranked rk h" and "node_at h t = Some tn"
    and "n_children tn = pre @ c # rest"
  shows "mxmlWalkNext h c t MXML_NO_DESCEND = Some (case rest of [] \<Rightarrow> None | r # _ \<Rightarrow> Some r)"
proof -
  have cin: "c \<in> set (n_children tn)" using assms(4) by simp
  obtain cn where cn: "node_at h c = Some cn" "n_parent cn = Some t"
    using consistent_child [OF assms(1,3) cin] by blast
  have "rk c < rk t" using ranked_child [OF assms(2,3) cin] .
  then have ne: "c \<noteq> t" by auto
  have "distinct (pre @ c # rest)" using consistent_distinct [OF assms(1,3)] assms(4) by simp
  then have nx: "next_in c (n_children tn) = (case rest of [] \<Rightarrow> None | r # _ \<Rightarrow> Some r)"
    using next_in_distinct assms(4) by simp
  have sib: "next_sibling h c = Some (case rest of [] \<Rightarrow> None | r # _ \<Rightarrow> Some r)"
    using cn assms(3) nx by (simp add: next_sibling_def)
  obtain m where m: "length h = Suc m"
    using node_at_less [OF assms(3)] by (cases "length h") auto
  have "walk_up (Suc m) h c t = Some (case rest of [] \<Rightarrow> None | r # _ \<Rightarrow> Some r)"
    using sib cn by (cases rest) auto
  then show ?thesis using cn ne m by (simp add: mxmlWalkNext_def)
qed

lemma find_from_children:
  assumes "consistent h" and "ranked rk h" and "node_at h t = Some tn"
  shows "n_children tn = pre @ cs \<Longrightarrow> length cs < k \<Longrightarrow>
         find_from k h (case cs of [] \<Rightarrow> None | c # _ \<Rightarrow> Some c) t P MXML_DESCEND_FIRST
           = Some (find (holds_at h P) cs)"
proof (induction cs arbitrary: pre k)
  case Nil
  then obtain k' where "k = Suc k'" by (cases k) auto
  then show ?case by simp
next
  case (Cons c rest)
  obtain k' where k: "k = Suc k'" "length rest < k'" using Cons.prems(2) by (cases k) auto
  have cin: "c \<in> set (n_children tn)" using Cons.prems(1) by simp
  obtain cn where cn: "node_at h c = Some cn"
    using consistent_child [OF assms(1,3) cin] by blast
  have wn: "mxmlWalkNext h c t MXML_NO_DESCEND = Some (case rest of [] \<Rightarrow> None | r # _ \<Rightarrow> Some r)"
    using walk_next_sibling [OF assms Cons.prems(1)] .
  have ih: "find_from k' h (case rest of [] \<Rightarrow> None | r # _ \<Rightarrow> Some r) t P MXML_DESCEND_FIRST
              = Some (find (holds_at h P) rest)"
    using Cons.IH [of "pre @ [c]" k'] Cons.prems(1) k(2) by simp
  have hc: "holds_at h P c = P cn" using cn by (simp add: holds_at_def)
  show ?case using cn wn ih k(1) hc by simp
qed

lemma distinct_bounded_length:
  assumes "distinct xs" and "\<forall>x\<in>set xs. x < (n::nat)"
  shows "length xs \<le> n"
proof -
  have "set xs \<subseteq> {..<n}" using assms(2) by auto
  then have "card (set xs) \<le> card {..<n}" by (intro card_mono) auto
  then show ?thesis using assms(1) by (simp add: distinct_card)
qed

lemma children_length:
  assumes "consistent h" and "node_at h t = Some tn"
  shows "length (n_children tn) \<le> length h"
proof (rule distinct_bounded_length)
  show "distinct (n_children tn)" using consistent_distinct [OF assms] .
  show "\<forall>x\<in>set (n_children tn). x < length h"
    using consistent_child [OF assms] node_at_less by blast
qed

lemma mxmlFindElement_children:
  assumes "consistent h" and "ranked rk h" and "node_at h t = Some tn"
  shows "mxmlFindElement h t t nm (Some a) v MXML_DESCEND_FIRST
           = Some (find (holds_at h (elem_match nm (Some a) v)) (n_children tn))"
proof -
  have first: "mxmlWalkNext h t t MXML_DESCEND_FIRST
                 = Some (case n_children tn of [] \<Rightarrow> None | c # _ \<Rightarrow> Some c)"
    using assms(3) by (cases "n_children tn") (auto simp: mxmlWalkNext_def)
  have "length (n_children tn) < Suc (length h)"
    using children_length [OF assms(1,3)] by simp
  then have "find_from (Suc (length h)) h (case n_children tn of [] \<Rightarrow> None | c # _ \<Rightarrow> Some c) t
               (elem_match nm (Some a) v) MXML_DESCEND_FIRST
             = Some (find (holds_at h (elem_match nm (Some a) v)) (n_children tn))"
    using find_from_children [OF assms, of "[]"] by simp
  then show ?thesis using first by (simp add: mxmlFindElement_def)
qed

lemma sort_position_find:
  "\<forall>c\<in>set cs. node_at h c \<noteq> None \<Longrightarrow>
     sort_position h nm cs = Some (find (name_after h nm) cs)"
  by (induction cs) (auto simp: name_after_def split: option.splits)

lemma insert_before_find:
  assumes "find P cs = Some c"
  shows "insert_before c p cs = takeWhile (\<lambda>x. \<not> P x) cs @ p # dropWhile (\<lambda>x. \<not> P x) cs"
proof -
  have "P c" using assms by (auto simp: find_Some_iff)
  then show ?thesis using assms by (induction cs) (auto split: if_splits)
qed

lemma append_find_None:
  "find P cs = None \<Longrightarrow> cs @ [p] = takeWhile (\<lambda>x. \<not> P x) cs @ p # dropWhile (\<lambda>x. \<not> P x) cs"
  by (induction cs) (auto split: if_splits)

lemma mxmlRemove_orphan:
  "node_at h p = Some nd \<Longrightarrow> n_parent nd = None \<Longrightarrow> mxmlRemove h p = Some h"
  by (simp add: mxmlRemove_def)

lemma mxmlRemove_child:
  "node_at h p = Some nd \<Longrightarrow> n_parent nd = Some q \<Longrightarrow> node_at h q = Some qn \<Longrightarrow> p \<noteq> q \<Longrightarrow>
     mxmlRemove h p = Some (store (store h q (qn\<lparr>n_children := removeAll p (n_children qn)\<rparr>)) p
                              (nd\<lparr>n_parent := None\<rparr>))"
  by (frule node_at_less) (simp add: mxmlRemove_def node_at_store)

lemma mxmlDelete_child:
  assumes con: "consistent h" and rk: "ranked rk h" and t: "node_at h t = Some tn"
    and old: "old \<in> set (n_children tn)"
  shows "\<exists>h1. mxmlDelete h old = Some h1 \<and> length h1 = length h \<and>
           node_at h1 t = Some (tn\<lparr>n_children := removeAll old (n_children tn)\<rparr>) \<and>
           node_at h1 old = None \<and>
           (\<forall>x xn. node_at h x = Some xn \<longrightarrow> x \<noteq> old \<longrightarrow> x \<noteq> t \<longrightarrow>
                    (n_parent xn = None \<or> n_parent xn = Some t) \<longrightarrow> node_at h1 x = Some xn)"
proof -
  obtain on where on: "node_at h old = Some on" "n_parent on = Some t"
    using consistent_child [OF con t old] by blast
  have rko: "rk old < rk t" using ranked_child [OF rk t old] .
  then have ne: "old \<noteq> t" by auto
  define tn' where "tn' = tn\<lparr>n_children := removeAll old (n_children tn)\<rparr>"
  define on' where "on' = on\<lparr>n_parent := None\<rparr>"
  define hr where "hr = store (store h t tn') old on'"
  have rem: "mxmlRemove h old = Some hr"
    using mxmlRemove_child [OF on t ne] by (simp add: hr_def tn'_def on'_def)
  have lt: "t < length h" "old < length h" using t on node_at_less by auto
  have at: "node_at hr x = (if x = old then Some on' else if x = t then Some tn' else node_at h x)" for x
    using lt by (simp add: hr_def node_at_store)
  have len: "length hr = length h" by (simp add: hr_def)
  have orig: "\<exists>yn0. node_at h y = Some yn0 \<and> c \<in> set (n_children yn0) \<and> n_parent yn = (if y = old then None else n_parent yn0)"
    if "node_at hr y = Some yn" and "c \<in> set (n_children yn)" for y yn c
    using that at [of y] on t by (auto simp: tn'_def on'_def split: if_splits)
  have cl: "child_links hr"
    unfolding child_links_def
  proof (intro allI impI)
    fix y yn c cn
    assume y: "node_at hr y = Some yn" and c: "c \<in> set (n_children yn)"
      and cn: "node_at hr c = Some cn"
    obtain yn0 where yn0: "node_at h y = Some yn0" "c \<in> set (n_children yn0)"
      using orig [OF y c] by blast
    obtain cn0 where cn0: "node_at h c = Some cn0" "n_parent cn0 = Some y"
      using consistent_child [OF con yn0] by blast
    have "c \<noteq> old"
    proof
      assume "c = old"
      then have "y = t" using cn0 on by simp
      then have "yn = tn'" using y at [of t] ne by simp
      then show False using c \<open>c = old\<close> by (simp add: tn'_def)
    qed
    then have "cn = (if c = t then tn' else cn0)" using cn cn0 at [of c] by (simp split: if_splits)
    then show "n_parent cn = Some y" using cn0 t by (auto simp: tn'_def)
  qed
  have rkr: "ranked rk hr"
  proof (rule rankedI)
    fix y yn c
    assume "node_at hr y = Some yn" and "c \<in> set (n_children yn)"
    then obtain yn0 where "node_at h y = Some yn0" "c \<in> set (n_children yn0)"
      using orig by blast
    then show "rk c < rk y" using ranked_child [OF rk] by blast
  qed
  have "t < length hr" using lt len by simp
  then have "0 < length hr" by linarith
  then obtain m where m: "length hr = Suc m" using gr0_implies_Suc by blast
  define h1 where "h1 = free_subtree (Suc m) hr old"
  have del: "mxmlDelete h old = Some h1" using rem m by (simp add: mxmlDelete_def h1_def)
  have l1: "length h1 = length h"
    using sub_heap_free_subtree [of "Suc m" hr old] len by (simp add: h1_def sub_heap_def)
  have gone: "node_at h1 old = None"
    unfolding h1_def by (rule free_subtree_frees [of hr old on']) (simp add: at)
  have up: "rk old < rk q" if pq: "n_parent tn = Some q" for q
  proof -
    obtain qn where "node_at h q = Some qn" "t \<in> set (n_children qn)"
      using consistent_parent [OF con t pq] by blast
    then have "rk t < rk q" using ranked_child [OF rk] by blast
    then show ?thesis using rko by simp
  qed
  have keep_t: "node_at h1 t = Some tn'"
    unfolding h1_def
  proof (rule free_subtree_keeps [OF cl rkr])
    show "node_at hr t = Some tn'" using at [of t] ne by simp
    show "t \<noteq> old" using ne by simp
    show "\<forall>q. n_parent tn' = Some q \<longrightarrow> rk old < rk q" using up by (simp add: tn'_def)
  qed
  have keep: "node_at h1 x = Some xn"
    if "node_at h x = Some xn" "x \<noteq> old" "x \<noteq> t" "n_parent xn = None \<or> n_parent xn = Some t" for x xn
    unfolding h1_def
  proof (rule free_subtree_keeps [OF cl rkr])
    show "node_at hr x = Some xn" using at [of x] that by simp
    show "x \<noteq> old" using that by simp
    show "\<forall>q. n_parent xn = Some q \<longrightarrow> rk old < rk q" using that(4) rko by auto
  qed
  show ?thesis using del l1 gone keep_t keep by (auto simp: tn'_def)
qed

lemma consistentI:
  assumes "\<And>p pn. node_at h p = Some pn \<Longrightarrow>
             distinct (n_children pn) \<and>
             (\<forall>c\<in>set (n_children pn). \<exists>cn. node_at h c = Some cn \<and> n_parent cn = Some p) \<and>
             (\<forall>q. n_parent pn = Some q \<longrightarrow> (\<exists>qn. node_at h q = Some qn \<and> p \<in> set (n_children qn)))"
  shows "consistent h"
  unfolding consistent_def list_all_iff
proof
  fix p assume "p \<in> set [0..<length h]"
  show "case node_at h p of None \<Rightarrow> True
        | Some pn \<Rightarrow> distinct (n_children pn) \<and>
            (\<forall>c\<in>set (n_children pn). case node_at h c of None \<Rightarrow> False | Some cn \<Rightarrow> n_parent cn = Some p) \<and>
            (case n_parent pn of None \<Rightarrow> True
             | Some q \<Rightarrow> (case node_at h q of None \<Rightarrow> False | Some qn \<Rightarrow> p \<in> set (n_children qn)))"
  proof (cases "node_at h p")
    case None
    then show ?thesis by simp
  next
    case (Some pn)
    show ?thesis using assms [OF Some] Some by (fastforce split: option.splits)
  qed
qed

lemma store_value_wf:
  assumes "consistent h" and "ranked rk h" and "node_at h p = Some nd"
  shows "consistent (store h p (nd\<lparr>n_value := v\<rparr>))" and "ranked rk (store h p (nd\<lparr>n_value := v\<rparr>))"
proof -
  let ?g = "store h p (nd\<lparr>n_value := v\<rparr>)"
  have lt: "p < length h" using assms(3) node_at_less by simp
  have at: "node_at ?g x = (if x = p then Some (nd\<lparr>n_value := v\<rparr>) else node_at h x)" for x
    using lt by (simp add: node_at_store)
  have same: "\<exists>xn0. node_at h x = Some xn0 \<and> n_children xn0 = n_children xn \<and> n_parent xn0 = n_parent xn"
    if "node_at ?g x = Some xn" for x xn
    using that at [of x] assms(3) by (auto split: if_splits)
  have again: "\<exists>xn. node_at ?g x = Some xn \<and> n_children xn0 = n_children xn \<and> n_parent xn0 = n_parent xn"
    if "node_at h x = Some xn0" for x xn0
    using that at [of x] assms(3) by (auto split: if_splits)
  show "consistent ?g"
  proof (rule consistentI)
    fix x xn assume x: "node_at ?g x = Some xn"
    obtain xn0 where xn0: "node_at h x = Some xn0" "n_children xn0 = n_children xn"
        "n_parent xn0 = n_parent xn" using same [OF x] by blast
    have 1: "distinct (n_children xn)" using consistent_distinct [OF assms(1) xn0(1)] xn0(2) by simp
    have 2: "\<forall>c\<in>set (n_children xn). \<exists>cn. node_at ?g c = Some cn \<and> n_parent cn = Some x"
    proof
      fix c assume "c \<in> set (n_children xn)"
      then obtain cn0 where "node_at h c = Some cn0" "n_parent cn0 = Some x"
        using consistent_child [OF assms(1) xn0(1)] xn0(2) by auto
      then show "\<exists>cn. node_at ?g c = Some cn \<and> n_parent cn = Some x" using again by fastforce
    qed
    have 3: "\<forall>q. n_parent xn = Some q \<longrightarrow> (\<exists>qn. node_at ?g q = Some qn \<and> x \<in> set (n_children qn))"
    proof (intro allI impI)
      fix q assume "n_parent xn = Some q"
      then obtain qn0 where "node_at h q = Some qn0" "x \<in> set (n_children qn0)"
        using consistent_parent [OF assms(1) xn0(1)] xn0(3) by auto
      then show "\<exists>qn. node_at ?g q = Some qn \<and> x \<in> set (n_children qn)" using again by fastforce
    qed
    show "distinct (n_children xn) \<and>
          (\<forall>c\<in>set (n_children xn). \<exists>cn. node_at ?g c = Some cn \<and> n_parent cn = Some x) \<and>
          (\<forall>q. n_parent xn = Some q \<longrightarrow> (\<exists>qn. node_at ?g q = Some qn \<and> x \<in> set (n_children qn)))"
      using 1 2 3 by blast
  qed
  show "ranked rk ?g"
  proof (rule rankedI)
    fix x xn c assume "node_at ?g x = Some xn" and c: "c \<in> set (n_children xn)"
    then obtain xn0 where "node_at h x = Some xn0" "n_children xn0 = n_children xn"
      using same by blast
    then show "rk c < rk x" using ranked_child [OF assms(2)] c by metis
  qed
qed

lemma add_sorted_detached:
  assumes t: "node_at h t = Some tn" and p: "node_at h p = Some nd" and orphan: "n_parent nd = None"
    and pt: "p \<noteq> t"
    and kids: "\<forall>c\<in>set (n_children tn). \<exists>cn. node_at h c = Some cn \<and> n_parent cn = Some t"
  shows "add_sorted h t p nm =
           Some (store (store h t (tn\<lparr>n_children :=
                          takeWhile (\<lambda>c. \<not> name_after h nm c) (n_children tn) @
                          p # dropWhile (\<lambda>c. \<not> name_after h nm c) (n_children tn)\<rparr>))
                   p (nd\<lparr>n_parent := Some t\<rparr>))"
proof -
  let ?cs = "n_children tn"
  let ?cs' = "takeWhile (\<lambda>c. \<not> name_after h nm c) ?cs @ p # dropWhile (\<lambda>c. \<not> name_after h nm c) ?cs"
  have lt: "t < length h" using t node_at_less by simp
  have pos: "sort_position h nm ?cs = Some (find (name_after h nm) ?cs)"
    using kids by (intro sort_position_find) auto
  have rem: "mxmlRemove h p = Some h" using p orphan by (rule mxmlRemove_orphan)
  have p2: "node_at (store h t x) p = Some nd" for x using p pt by (simp add: node_at_store)
  show ?thesis
  proof (cases "find (name_after h nm) ?cs")
    case None
    have "?cs @ [p] = ?cs'" using None by (rule append_find_None)
    then show ?thesis using t pos None rem p2 by (simp add: add_sorted_def mxmlAdd_def Let_def)
  next
    case (Some temp)
    have "temp \<in> set ?cs" using Some by (auto simp: find_Some_iff)
    then obtain cn where cn: "node_at h temp = Some cn" "n_parent cn = Some t" using kids by blast
    have "insert_before temp p ?cs = ?cs'" using Some by (rule insert_before_find)
    then show ?thesis using t pos Some rem p2 cn \<open>temp \<in> set ?cs\<close>
      by (simp add: add_sorted_def mxmlAdd_def Let_def)
  qed
qed

lemma store_same: "node_at h p = Some nd \<Longrightarrow> store h p nd = h"
  by (simp add: node_at_def store_def split: if_splits) (metis list_update_id)

lemma set_attr_list_new: "map_of as a = None \<Longrightarrow> set_attr_list as a v = as @ [(a, v)]"
  by (induction as) (auto split: if_splits)

lemma same_kind_name_match:
  "same_kind_name h kind nm = holds_at h (elem_match (Some kind) (Some ''name'') (Some nm))"
proof
  fix c
  show "same_kind_name h kind nm c = holds_at h (elem_match (Some kind) (Some ''name'') (Some nm)) c"
  proof (cases "node_at h c")
    case None
    then show ?thesis by (simp add: same_kind_name_def holds_at_def)
  next
    case (Some cn)
    then show ?thesis
      by (cases "n_value cn")
         (auto simp: same_kind_name_def holds_at_def elem_match_def split: option.splits)
  qed
qed

lemma delete_existing_detached:
  fixes nm :: string
  assumes con: "consistent h" and rk: "ranked rk h" and t: "node_at h t = Some tn"
    and p: "node_at h p = Some nd" and orphan: "n_parent nd = None" and pt: "p \<noteq> t"
    and el: "n_value nd = Element kind as"
  defines "dup \<equiv> find (same_kind_name h kind nm) (n_children tn)"
  shows "\<exists>h1. delete_existing h t p nd nm = Some h1 \<and>
           node_at h1 t = Some (tn\<lparr>n_children :=
              (case dup of None \<Rightarrow> n_children tn | Some old \<Rightarrow> removeAll old (n_children tn))\<rparr>) \<and>
           node_at h1 p = Some (nd\<lparr>n_value := Element kind
              (inherit_scope (case dup of None \<Rightarrow> None | Some old \<Rightarrow> attr_at h old ''scope'') as)\<rparr>) \<and>
           (\<forall>c\<in>set (n_children tn). dup \<noteq> Some c \<longrightarrow> node_at h1 c = node_at h c) \<and>
           (\<forall>old. dup = Some old \<longrightarrow> node_at h1 old = None)"
proof -
  have fe: "mxmlFindElement h t t (element_name (n_value nd)) (Some ''name'') (Some nm) MXML_DESCEND_FIRST
              = Some dup"
    using mxmlFindElement_children [OF con rk t] el by (simp add: dup_def same_kind_name_match)
  show ?thesis
  proof (cases dup)
    case None
    have "nd\<lparr>n_value := Element kind as\<rparr> = nd" using el by simp
    then show ?thesis using fe None t p el by (simp add: delete_existing_def inherit_scope_def)
  next
    case (Some old)
    have oin: "old \<in> set (n_children tn)" using Some by (auto simp: dup_def find_Some_iff)
    obtain on where on: "node_at h old = Some on" "n_parent on = Some t"
      using consistent_child [OF con t oin] by blast
    have po: "p \<noteq> old" using on p orphan by auto
    define as2 where "as2 = inherit_scope (attr_at h old ''scope'') as"
    define nd2 where "nd2 = nd\<lparr>n_value := Element kind as2\<rparr>"
    define h' where "h' = store h p nd2"
    have lt: "p < length h" using p node_at_less by simp
    have step: "(case (get_attr (n_value on) ''scope'', get_attr (n_value nd) ''scope'') of
                   (Some scope, None) \<Rightarrow> mxmlElementSetAttr h p ''scope'' scope
                 | _ \<Rightarrow> Some h) = Some h'"
    proof (cases "get_attr (n_value on) ''scope''")
      case None
      then have "as2 = as" using on by (simp add: as2_def inherit_scope_def attr_at_def)
      then have "nd2 = nd" using el by (simp add: nd2_def)
      then show ?thesis using None store_same [OF p] by (simp add: h'_def)
    next
      case (Some s)
      show ?thesis
      proof (cases "map_of as ''scope''")
        case None
        then have "as2 = set_attr_list as ''scope'' s"
          using Some on by (simp add: as2_def inherit_scope_def attr_at_def set_attr_list_new)
        then show ?thesis using Some None el p
          by (simp add: mxmlElementSetAttr_def h'_def nd2_def)
      next
        case (Some w)
        then have "as2 = as" by (simp add: as2_def inherit_scope_def split: option.splits)
        then have "nd2 = nd" using el by (simp add: nd2_def)
        then show ?thesis using Some el store_same [OF p] by (simp add: h'_def split: option.splits)
      qed
    qed
    have con': "consistent h'" and rk': "ranked rk h'"
      unfolding h'_def nd2_def using store_value_wf [OF con rk p] by auto
    have at: "node_at h' x = (if x = p then Some nd2 else node_at h x)" for x
      using lt by (simp add: h'_def node_at_store)
    have t': "node_at h' t = Some tn" using at [of t] pt t by simp
    obtain h1 where h1: "mxmlDelete h' old = Some h1"
        "node_at h1 t = Some (tn\<lparr>n_children := removeAll old (n_children tn)\<rparr>)"
        "node_at h1 old = None"
        "\<And>x xn. node_at h' x = Some xn \<Longrightarrow> x \<noteq> old \<Longrightarrow> x \<noteq> t \<Longrightarrow>
                 n_parent xn = None \<or> n_parent xn = Some t \<Longrightarrow> node_at h1 x = Some xn"
      using mxmlDelete_child [OF con' rk' t' oin] by blast
    have p1: "node_at h1 p = Some nd2"
      using h1(4) [of p nd2] at [of p] po pt orphan by (simp add: nd2_def)
    have kids: "node_at h1 c = node_at h c" if cin: "c \<in> set (n_children tn)" and co: "c \<noteq> old" for c
    proof -
      obtain cn where cn: "node_at h c = Some cn" "n_parent cn = Some t"
        using consistent_child [OF con t cin] by blast
      have "c \<noteq> p" using cn p orphan by auto
      moreover have "c \<noteq> t" using ranked_child [OF rk t cin] by auto
      ultimately show ?thesis using h1(4) [of c cn] at [of c] cn co by simp
    qed
    have "delete_existing h t p nd nm = Some h1"
      using fe Some on step h1(1) by (simp add: delete_existing_def)
    then show ?thesis using Some h1(2,3) p1 kids by (auto simp: nd2_def as2_def)
  qed
qed

section \<open>Properties of \<^verbatim>\<open>sort_node\<close>\<close>

lemma placed_sortedI:
  assumes "node_at h t = Some tn" and "n_children tn = A @ p # B" and "p \<notin> set A"
    and "\<forall>c\<in>set A. \<not> name_after h nm c" and "B \<noteq> [] \<longrightarrow> name_after h nm (hd B)"
  shows "placed_sorted h t p nm"
proof -
  have 1: "takeWhile (\<lambda>c. c \<noteq> p) (A @ p # B) = A"
    using assms(3) by (induction A) auto
  have 2: "dropWhile (\<lambda>c. c \<noteq> p) (A @ p # B) = p # B"
    using assms(3) by (induction A) auto
  show ?thesis using assms 1 2 by (cases B) (auto simp: placed_sorted_def list_all_iff)
qed

text \<open>The effect of \<^verbatim>\<open>sort_node\<close> on a detached node, case by case.\<close>

lemma sort_node_links:
  assumes wf: "wf_heap rk h" and t: "node_at h t = Some tn" and p: "node_at h p = Some nd"
    and orphan: "n_parent nd = None" and pt: "p \<noteq> t"
  shows "case get_attr (n_value nd) ''name'' of
           None \<Rightarrow> sort_node h (Some t) (Some p) = Some h
         | Some nm \<Rightarrow>
             if take 1 nm = ''_'' then sort_node h (Some t) (Some p) = Some h
             else (\<exists>h' kind as.
                     sort_node h (Some t) (Some p) = Some h' \<and> n_value nd = Element kind as \<and>
                     (let dup = find (same_kind_name h kind nm) (n_children tn);
                          rest = (case dup of None \<Rightarrow> n_children tn
                                  | Some old \<Rightarrow> removeAll old (n_children tn));
                          old_scope = (case dup of None \<Rightarrow> None | Some old \<Rightarrow> attr_at h old ''scope'')
                      in node_at h' t = Some (tn\<lparr>n_children :=
                             takeWhile (\<lambda>c. \<not> name_after h nm c) rest @
                             p # dropWhile (\<lambda>c. \<not> name_after h nm c) rest\<rparr>) \<and>
                         node_at h' p = Some (nd\<lparr>n_parent := Some t,
                                                  n_value := Element kind (inherit_scope old_scope as)\<rparr>) \<and>
                         (\<forall>old. dup = Some old \<longrightarrow> node_at h' old = None) \<and>
                         (\<forall>c\<in>set rest. node_at h' c = node_at h c) \<and>
                         placed_sorted h' t p nm))"
proof (cases "get_attr (n_value nd) ''name''")
  case None
  then show ?thesis using p orphan by (simp add: sort_node_def)
next
  case (Some nm)
  show ?thesis
  proof (cases "take 1 nm = ''_''")
    case True
    then show ?thesis using Some p orphan by (simp add: sort_node_def)
  next
    case False
    have con: "consistent h" and rk: "ranked rk h" using wf by (auto simp: wf_heap_def)
    obtain kind as where el: "n_value nd = Element kind as"
      using Some by (cases "n_value nd") auto
    define dup where "dup = find (same_kind_name h kind nm) (n_children tn)"
    define rest where "rest = (case dup of None \<Rightarrow> n_children tn
                               | Some old \<Rightarrow> removeAll old (n_children tn))"
    define old_scope where "old_scope = (case dup of None \<Rightarrow> None | Some old \<Rightarrow> attr_at h old ''scope'')"
    define nd1 where "nd1 = nd\<lparr>n_value := Element kind (inherit_scope old_scope as)\<rparr>"
    define tn1 where "tn1 = tn\<lparr>n_children := rest\<rparr>"
    obtain h1 where h1: "delete_existing h t p nd nm = Some h1"
        "node_at h1 t = Some tn1" "node_at h1 p = Some nd1"
        "\<forall>c\<in>set (n_children tn). dup \<noteq> Some c \<longrightarrow> node_at h1 c = node_at h c"
        "\<forall>old. dup = Some old \<longrightarrow> node_at h1 old = None"
      using delete_existing_detached [OF con rk t p orphan pt el, of nm]
      unfolding dup_def rest_def old_scope_def nd1_def tn1_def by blast
    have rest_sub: "set rest \<subseteq> set (n_children tn)" and rest_dup: "\<forall>c\<in>set rest. dup \<noteq> Some c"
      by (auto simp: rest_def split: option.splits)
    have same: "node_at h1 c = node_at h c" if "c \<in> set rest" for c
      using h1(4) rest_sub rest_dup that by blast
    have kids: "\<forall>c\<in>set (n_children tn1). \<exists>cn. node_at h1 c = Some cn \<and> n_parent cn = Some t"
    proof
      fix c assume "c \<in> set (n_children tn1)"
      then have c: "c \<in> set rest" by (simp add: tn1_def)
      then have "c \<in> set (n_children tn)" using rest_sub by blast
      then show "\<exists>cn. node_at h1 c = Some cn \<and> n_parent cn = Some t"
        using consistent_child [OF con t] same [OF c] by simp
    qed
    have after: "name_after h1 nm c = name_after h nm c" if "c \<in> set rest" for c
      using same [OF that] by (simp add: name_after_def)
    define A where "A = takeWhile (\<lambda>c. \<not> name_after h nm c) rest"
    define B where "B = dropWhile (\<lambda>c. \<not> name_after h nm c) rest"
    have A1: "takeWhile (\<lambda>c. \<not> name_after h1 nm c) rest = A"
      unfolding A_def using after by (intro takeWhile_cong) auto
    have B1: "dropWhile (\<lambda>c. \<not> name_after h1 nm c) rest = B"
      unfolding B_def using after by (intro dropWhile_cong) auto
    define h' where "h' = store (store h1 t (tn1\<lparr>n_children := A @ p # B\<rparr>)) p (nd1\<lparr>n_parent := Some t\<rparr>)"
    have add: "add_sorted h1 t p nm = Some h'"
      using add_sorted_detached [OF h1(2,3) _ pt kids, of nm] orphan A1 B1
      by (simp add: nd1_def tn1_def h'_def)
    have lt: "t < length h1" "p < length h1" using h1(2,3) node_at_less by auto
    have at: "node_at h' x = (if x = p then Some (nd1\<lparr>n_parent := Some t\<rparr>)
                else if x = t then Some (tn1\<lparr>n_children := A @ p # B\<rparr>) else node_at h1 x)" for x
      using lt by (simp add: h'_def node_at_store)
    have AB: "A @ B = rest" by (simp add: A_def B_def)
    have pr: "p \<notin> set rest"
    proof
      assume "p \<in> set rest"
      then have "p \<in> set (n_children tn)" using rest_sub by blast
      then show False using consistent_child [OF con t] p orphan by fastforce
    qed
    have tr: "t \<notin> set rest"
    proof
      assume "t \<in> set rest"
      then have "t \<in> set (n_children tn)" using rest_sub by blast
      then show False using ranked_child [OF rk t] by fastforce
    qed
    have sn: "sort_node h (Some t) (Some p) = Some h'"
      using p orphan Some False h1(1) add by (simp add: sort_node_def)
    have c1: "node_at h' t = Some (tn\<lparr>n_children := A @ p # B\<rparr>)"
      using at [of t] pt by (simp add: tn1_def)
    have c2: "node_at h' p = Some (nd\<lparr>n_parent := Some t, n_value := Element kind (inherit_scope old_scope as)\<rparr>)"
      using at [of p] by (simp add: nd1_def)
    have c3: "\<forall>old. dup = Some old \<longrightarrow> node_at h' old = None"
    proof (intro allI impI)
      fix old assume d: "dup = Some old"
      then have "old \<in> set (n_children tn)" by (auto simp: dup_def find_Some_iff)
      then have "old \<noteq> p" "old \<noteq> t"
        using consistent_child [OF con t] p orphan ranked_child [OF rk t] by fastforce+
      then show "node_at h' old = None" using at [of old] h1(5) d by simp
    qed
    have c4: "\<forall>c\<in>set rest. node_at h' c = node_at h c"
      using at same pr tr by auto
    have after': "name_after h' nm c = name_after h nm c" if "c \<in> set rest" for c
      using c4 that by (simp add: name_after_def)
    have c5: "placed_sorted h' t p nm"
    proof (rule placed_sortedI [OF c1])
      show "n_children (tn\<lparr>n_children := A @ p # B\<rparr>) = A @ p # B" by simp
      show "p \<notin> set A" using pr AB by auto
      show "\<forall>c\<in>set A. \<not> name_after h' nm c"
      proof
        fix c assume c: "c \<in> set A"
        then have "\<not> name_after h nm c" unfolding A_def by (auto dest: set_takeWhileD)
        moreover have "c \<in> set rest" using c AB by auto
        ultimately show "\<not> name_after h' nm c" using after' by simp
      qed
      show "B \<noteq> [] \<longrightarrow> name_after h' nm (hd B)"
      proof
        assume ne: "B \<noteq> []"
        then have "name_after h nm (hd B)"
          using hd_dropWhile [of "\<lambda>c. \<not> name_after h nm c" rest] by (simp add: B_def)
        moreover have "hd B \<in> set rest" using ne AB by (metis Un_iff hd_in_set set_append)
        ultimately show "name_after h' nm (hd B)" using after' by simp
      qed
    qed
    have "sort_node h (Some t) (Some p) = Some h' \<and> n_value nd = Element kind as \<and>
          (let dup = find (same_kind_name h kind nm) (n_children tn);
               rest = (case dup of None \<Rightarrow> n_children tn
                       | Some old \<Rightarrow> removeAll old (n_children tn));
               old_scope = (case dup of None \<Rightarrow> None | Some old \<Rightarrow> attr_at h old ''scope'')
           in node_at h' t = Some (tn\<lparr>n_children :=
                  takeWhile (\<lambda>c. \<not> name_after h nm c) rest @
                  p # dropWhile (\<lambda>c. \<not> name_after h nm c) rest\<rparr>) \<and>
              node_at h' p = Some (nd\<lparr>n_parent := Some t,
                                       n_value := Element kind (inherit_scope old_scope as)\<rparr>) \<and>
              (\<forall>old. dup = Some old \<longrightarrow> node_at h' old = None) \<and>
              (\<forall>c\<in>set rest. node_at h' c = node_at h c) \<and>
              placed_sorted h' t p nm)"
      using sn el c1 c2 c3 c4 c5
      unfolding A_def B_def rest_def old_scope_def dup_def Let_def by blast
    then show ?thesis using Some False by (simp only: option.case if_False) blast
  qed
qed


text \<open>
  Claim C1, for a call whose node is detached (it has no parent, as every node the scanner
  hands to \<^verbatim>\<open>sort_node\<close> for the first time) and is not the tree itself. A node without a
  \<^verbatim>\<open>name\<close> attribute, or whose name begins with an underscore, leaves the store unchanged.
  Otherwise the first child of the tree with the same element name and the same \<^verbatim>\<open>name\<close> is
  looked up; if it exists and carries a \<^verbatim>\<open>scope\<close> while the node has none, the node inherits
  that scope, and the old child is unlinked and freed. The node is then linked below the tree
  immediately before the first remaining child whose name is greater under \<^verbatim>\<open>strcmp\<close>, or
  after the last child when there is none; the other children are untouched.
\<close>

theorem sort_node_detached:
  assumes wf: "wf_heap rk h" and t: "node_at h t = Some tn" and p: "node_at h p = Some nd"
    and orphan: "n_parent nd = None" and pt: "p \<noteq> t"
  shows "case get_attr (n_value nd) ''name'' of
           None \<Rightarrow> sort_node h (Some t) (Some p) = Some h
         | Some nm \<Rightarrow>
             if take 1 nm = ''_'' then sort_node h (Some t) (Some p) = Some h
             else (\<exists>h' kind as.
                     sort_node h (Some t) (Some p) = Some h' \<and> n_value nd = Element kind as \<and>
                     (let dup = find (same_kind_name h kind nm) (n_children tn);
                          rest = (case dup of None \<Rightarrow> n_children tn
                                  | Some old \<Rightarrow> removeAll old (n_children tn));
                          old_scope = (case dup of None \<Rightarrow> None | Some old \<Rightarrow> attr_at h old ''scope'')
                      in node_at h' t = Some (tn\<lparr>n_children :=
                             takeWhile (\<lambda>c. \<not> name_after h nm c) rest @
                             p # dropWhile (\<lambda>c. \<not> name_after h nm c) rest\<rparr>) \<and>
                         node_at h' p = Some (nd\<lparr>n_parent := Some t,
                                                  n_value := Element kind (inherit_scope old_scope as)\<rparr>) \<and>
                         (\<forall>old. dup = Some old \<longrightarrow> node_at h' old = None) \<and>
                         (\<forall>c\<in>set rest. node_at h' c = node_at h c) \<and>
                         placed_sorted h' t p nm))"
  using assms by (rule sort_node_links)


text \<open>
  The theorem at a concrete store: a detached variable \<open>b\<close> replaces the child \<open>b\<close> of the tree,
  inherits its scope \<open>private\<close>, and stands before \<open>d\<close>.
\<close>

theorem sort_node_detached_witness:
  "\<exists>h'. sort_node example_tree (Some 0) (Some 3) = Some h' \<and>
        map_option n_children (node_at h' 0) = Some [3, 2] \<and>
        node_at h' 3 = Some \<lparr>n_parent = Some 0, n_children = [],
           n_value = Element ''variable'' [(''name'', ''b''), (''scope'', ''private'')]\<rparr> \<and>
        node_at h' 1 = None"
proof -
  have wf: "wf_heap example_rank example_tree" by code_simp
  have t: "node_at example_tree 0 = Some \<lparr>n_parent = None, n_children = [1, 2], n_value = Element ''mxmldoc'' []\<rparr>"
    by code_simp
  have p: "node_at example_tree 3 = Some \<lparr>n_parent = None, n_children = [], n_value = Element ''variable'' [(''name'', ''b'')]\<rparr>"
    by code_simp
  have d: "find (same_kind_name example_tree ''variable'' ''b'') [1, 2] = Some 1" by code_simp
  have s: "attr_at example_tree 1 ''scope'' = Some ''private''" by code_simp
  have a: "\<not> name_after example_tree ''b'' 2 = False" by code_simp
  show ?thesis
    using sort_node_detached [OF wf t p] d s a
    by (auto simp: Let_def inherit_scope_def)
qed

text \<open>
  Claim C1 as it is written speaks of every call. For a node that already is a child of the
  tree the function returns at its first test, so in a tree whose children are \<open>b\<close>, \<open>a\<close> the
  call on \<open>b\<close> leaves \<open>b\<close> in front of \<open>a\<close>: the node is not moved before the first greater
  sibling or to the end.
\<close>

theorem sort_node_already_child_counterexample:
  "sort_node unsorted_tree (Some 0) (Some 1) = Some unsorted_tree \<and>
   get_attr (Element ''variable'' [(''name'', ''b'')]) ''name'' = Some ''b'' \<and>
   \<not> placed_sorted unsorted_tree 0 1 ''b''"
  by code_simp

text \<open>
  Claim C10: with a \<^verbatim>\<open>NULL\<close> tree, a \<^verbatim>\<open>NULL\<close> node, or a node whose parent already is the
  tree, \<^verbatim>\<open>sort_node\<close> returns the store as it was: nothing is removed, no attribute is copied,
  no child list changes.
\<close>

theorem sort_node_noop:
  "sort_node h None node = Some h \<and> sort_node h tree None = Some h \<and>
   (node_at h p = Some nd \<longrightarrow> n_parent nd = Some t \<longrightarrow> sort_node h (Some t) (Some p) = Some h)"
  by (cases tree) (simp_all add: sort_node_def)

text \<open>The no-op at a concrete store: re-inserting the child \<open>b\<close> of the unsorted tree.\<close>

theorem sort_node_noop_witness:
  "node_at unsorted_tree 1 =
     Some \<lparr>n_parent = Some 0, n_children = [], n_value = Element ''variable'' [(''name'', ''b'')]\<rparr> \<and>
   sort_node unsorted_tree (Some 0) (Some 1) = Some unsorted_tree"
proof -
  have p: "node_at unsorted_tree 1 =
     Some \<lparr>n_parent = Some 0, n_children = [], n_value = Element ''variable'' [(''name'', ''b'')]\<rparr>"
    by code_simp
  show ?thesis using sort_node_noop [of unsorted_tree None None 1 _ 0] p by simp
qed

section \<open>Properties of \<^verbatim>\<open>update_comment\<close>\<close>







section \<open>Properties of \<^verbatim>\<open>find_public\<close>\<close>

lemma walk_seq_length: "walk_seq k h cur t = Some W \<Longrightarrow> length W \<le> k"
proof (induction k arbitrary: cur W)
  case 0
  then show ?case by (cases cur) auto
next
  case (Suc k)
  show ?case
  proof (cases cur)
    case None
    then show ?thesis using Suc.prems by simp
  next
    case (Some p)
    then obtain nx rest where "walk_seq k h nx t = Some rest" "W = p # rest"
      using Suc.prems by (auto simp: bind_eq_Some_conv)
    then show ?thesis using Suc.IH by fastforce
  qed
qed















section \<open>Deleting nodes\<close>






lemma mxmlDelete_freed:
  assumes "mxmlDelete h v = Some h'"
  shows "node_at h' v = None \<and> length h' = length h \<and> (\<forall>x. node_at h x = None \<longrightarrow> node_at h' x = None)"
proof -
  obtain hr where hr: "mxmlRemove h v = Some hr" "h' = free_subtree (length hr) hr v"
    using assms by (auto simp: mxmlDelete_def bind_eq_Some_conv)
  obtain vn where v: "node_at h v = Some vn"
    using hr(1) by (auto simp: mxmlRemove_def bind_eq_Some_conv)
  have lv: "v < length h" using v node_at_less by simp
  have props: "length hr = length h \<and> node_at hr v \<noteq> None \<and> (\<forall>x. node_at h x = None \<longrightarrow> node_at hr x = None)"
  proof (cases "n_parent vn")
    case None
    then show ?thesis using hr(1) v by (simp add: mxmlRemove_def)
  next
    case (Some q)
    then obtain qn nd1 where q: "node_at h q = Some qn"
        "hr = store (store h q (qn\<lparr>n_children := removeAll v (n_children qn)\<rparr>)) v nd1"
      using hr(1) v by (auto simp: mxmlRemove_def bind_eq_Some_conv Let_def)
    have "q < length h" using q(1) node_at_less by simp
    then show ?thesis using q lv v by (auto simp: node_at_store)
  qed
  then have "0 < length hr" using lv by linarith
  then obtain m where m: "length hr = Suc m" using gr0_implies_Suc by blast
  obtain vr where vr: "node_at hr v = Some vr" using props by blast
  have sub: "sub_heap h' hr" unfolding hr(2) by (rule sub_heap_free_subtree)
  have "node_at h' v = None" unfolding hr(2) m using vr by (rule free_subtree_frees)
  moreover have "length h' = length h" using sub props by (simp add: sub_heap_def)
  moreover have "node_at h' x = None" if "node_at h x = None" for x
    using that props sub unfolding sub_heap_def by metis
  ultimately show ?thesis by blast
qed







section \<open>Evaluating the scanner\<close>





section \<open>Comments marked private\<close>






section \<open>What every step of the scanner preserves\<close>

text \<open>
  A freed cell is never allocated again: new nodes are appended to the store. The lemmas below
  carry this through every function of the scanner, together with the parser state where a
  function returns the scanner variables. They are proved by rules that follow the shape of the
  definitions: one rule for each way of sequencing two steps and for each case distinction.
\<close>

lemma keeps_freed_iff:
  "keeps_freed h g \<longleftrightarrow>
     length h \<le> length g \<and> (\<forall>x<length h. node_at h x = None \<longrightarrow> node_at g x = None)"
  by (auto simp: keeps_freed_def list_all_iff)

lemma keeps_freed_refl: "keeps_freed h h"
  by (simp add: keeps_freed_iff)

lemma keeps_freed_trans: "keeps_freed f g \<Longrightarrow> keeps_freed g h \<Longrightarrow> keeps_freed f h"
  unfolding keeps_freed_iff by (meson le_trans less_le_trans)

lemma keeps_freed_store: "node_at h p = Some nd \<Longrightarrow> keeps_freed h (store h p n)"
  by (auto simp: keeps_freed_iff node_at_store)

lemma keeps_freed_sub: "sub_heap g h \<Longrightarrow> keeps_freed h g"
  unfolding keeps_freed_iff sub_heap_def by (metis order_refl)

lemma keeps_freed_alloc: "keeps_freed h (h @ [c])"
  by (auto simp: keeps_freed_iff node_at_def nth_append)

named_theorems frames

lemma pred_bind: "(\<And>x. m = Some x \<Longrightarrow> pred_option Q (f x)) \<Longrightarrow> pred_option Q (m \<bind> f)"
  by (cases m) simp_all

lemma pred_bind_heap:
  "pred_option (keeps_freed h0) m \<Longrightarrow> (\<And>g. keeps_freed h0 g \<Longrightarrow> pred_option Q (f g)) \<Longrightarrow>
   pred_option Q (m \<bind> f)"
  by (cases m) simp_all

lemma pred_bind_heap2:
  "pred_option (\<lambda>(g, x). keeps_freed h0 g) m \<Longrightarrow>
   (\<And>g x. keeps_freed h0 g \<Longrightarrow> pred_option Q (f g x)) \<Longrightarrow>
   pred_option Q (m \<bind> case_prod f)"
  by (cases m) auto

lemma pred_bind_vars:
  "pred_option (\<lambda>(st1, g). keeps_freed h0 g \<and> s_state st1 = s) m \<Longrightarrow>
   (\<And>st1 g. keeps_freed h0 g \<Longrightarrow> s_state st1 = s \<Longrightarrow> pred_option Q (f st1 g)) \<Longrightarrow>
   pred_option Q (m \<bind> case_prod f)"
  by (cases m) auto

lemma pred_bind_pair:
  "(\<And>a b. m = Some (a, b) \<Longrightarrow> pred_option Q (f a b)) \<Longrightarrow> pred_option Q (m \<bind> case_prod f)"
  by (cases m) auto

lemma pred_if:
  "(c \<Longrightarrow> pred_option Q a) \<Longrightarrow> (\<not> c \<Longrightarrow> pred_option Q b) \<Longrightarrow> pred_option Q (if c then a else b)"
  by simp

lemma pred_case_option:
  "(x = None \<Longrightarrow> pred_option Q a) \<Longrightarrow> (\<And>y. x = Some y \<Longrightarrow> pred_option Q (f y)) \<Longrightarrow>
   pred_option Q (case x of None \<Rightarrow> a | Some y \<Rightarrow> f y)"
  by (cases x) simp_all

lemma pred_case_list:
  "(x = [] \<Longrightarrow> pred_option Q a) \<Longrightarrow> (\<And>y ys. x = y # ys \<Longrightarrow> pred_option Q (f y ys)) \<Longrightarrow>
   pred_option Q (case x of [] \<Rightarrow> a | y # ys \<Rightarrow> f y ys)"
  by (cases x) simp_all

lemma pred_case_prod:
  "(\<And>a b. x = (a, b) \<Longrightarrow> pred_option Q (f a b)) \<Longrightarrow> pred_option Q (case x of (a, b) \<Rightarrow> f a b)"
  by (cases x) simp

lemma pred_case_value:
  "(\<And>nm as. x = Element nm as \<Longrightarrow> pred_option Q (f1 nm as)) \<Longrightarrow>
   (\<And>ws s. x = Text ws s \<Longrightarrow> pred_option Q (f2 ws s)) \<Longrightarrow>
   (\<And>s. x = Opaque s \<Longrightarrow> pred_option Q (f3 s)) \<Longrightarrow>
   (x = OtherValue \<Longrightarrow> pred_option Q f4) \<Longrightarrow>
   pred_option Q (case x of Element nm as \<Rightarrow> f1 nm as | Text ws s \<Rightarrow> f2 ws s
                  | Opaque s \<Rightarrow> f3 s | OtherValue \<Rightarrow> f4)"
  by (cases x) simp_all

lemma pred_map_fst:
  "pred_option (\<lambda>(g, x). Q g) m \<Longrightarrow> pred_option Q (map_option fst m)"
  by (cases m) auto

lemma pred_Some: "Q x \<Longrightarrow> pred_option Q (Some x)"
  by simp

lemma pred_None: "pred_option Q None"
  by simp

lemma pred_case_brace_kind:
  "(x = AGGREGATE \<Longrightarrow> pred_option Q a) \<Longrightarrow> (x = ENUMERATION \<Longrightarrow> pred_option Q b) \<Longrightarrow>
   (x = EXTERN \<Longrightarrow> pred_option Q c) \<Longrightarrow> (x = OTHER \<Longrightarrow> pred_option Q d) \<Longrightarrow>
   pred_option Q (case x of AGGREGATE \<Rightarrow> a | ENUMERATION \<Rightarrow> b | EXTERN \<Rightarrow> c | OTHER \<Rightarrow> d)"
  by (cases x) simp_all

lemmas pred_rules = pred_case_brace_kind pred_if pred_case_option pred_case_list pred_case_prod pred_case_value
  pred_None pred_map_fst pred_Some

lemma node_store_frame:
  "keeps_freed h0 h \<Longrightarrow> node_at h p = Some nd \<Longrightarrow> keeps_freed h0 (store h p n)"
  by (meson keeps_freed_store keeps_freed_trans)

lemma mxmlElementSetAttr_frame [frames]:
  "keeps_freed h0 h \<Longrightarrow> pred_option (keeps_freed h0) (mxmlElementSetAttr h p a v)"
  unfolding mxmlElementSetAttr_def
  by (rule pred_bind) (simp add: node_store_frame)

lemma clear_whitespace_frame [frames]:
  "keeps_freed h0 h \<Longrightarrow> pred_option (keeps_freed h0) (clear_whitespace h p)"
  unfolding clear_whitespace_def
  by (rule pred_bind, rule pred_case_value) (simp_all add: node_store_frame)

lemma mxmlRemove_frame [frames]:
  "keeps_freed h0 h \<Longrightarrow> pred_option (keeps_freed h0) (mxmlRemove h p)"
  unfolding mxmlRemove_def Let_def
  apply (rule pred_bind, rule pred_case_option, simp)
  apply (rule pred_bind, rule pred_bind)
  apply (simp add: node_store_frame)
  done

lemma mxmlDelete_frame [frames]:
  "keeps_freed h0 h \<Longrightarrow> pred_option (keeps_freed h0) (mxmlDelete h p)"
  unfolding mxmlDelete_def
  apply (rule pred_bind_heap, rule frames, assumption)
  apply simp
  apply (erule keeps_freed_trans, rule keeps_freed_sub [OF sub_heap_free_subtree])
  done

lemma mxmlAdd_frame [frames]:
  "keeps_freed h0 h \<Longrightarrow> pred_option (keeps_freed h0) (mxmlAdd h parent wh child p)"
  unfolding mxmlAdd_def Let_def
  apply (rule pred_bind_heap, rule frames, assumption)
  apply (rule pred_bind, rule pred_bind, rule pred_bind)
  apply (simp add: node_store_frame)
  done

lemma mxml_new_frame:
  "keeps_freed h0 h \<Longrightarrow> pred_option (\<lambda>(g, x). keeps_freed h0 g) (mxml_new h parent v)"
  unfolding mxml_new_def Let_def
  apply (rule pred_case_option)
   apply (simp, erule keeps_freed_trans, rule keeps_freed_alloc)
  apply (rule pred_bind_heap, rule frames)
   apply (erule keeps_freed_trans, rule keeps_freed_alloc)
  apply simp
  done

lemma mxmlNewElement_frame [frames]:
  "keeps_freed h0 h \<Longrightarrow> pred_option (\<lambda>(g, x). keeps_freed h0 g) (mxmlNewElement h parent nm)"
  unfolding mxmlNewElement_def by (rule mxml_new_frame)

lemma mxmlNewText_frame [frames]:
  "keeps_freed h0 h \<Longrightarrow> pred_option (\<lambda>(g, x). keeps_freed h0 g) (mxmlNewText h parent ws s)"
  unfolding mxmlNewText_def by (rule mxml_new_frame)

lemma delete_existing_frame [frames]:
  "keeps_freed h0 h \<Longrightarrow> pred_option (keeps_freed h0) (delete_existing h t p nd nm)"
  unfolding delete_existing_def Let_def
  by (rule pred_bind_heap | rule pred_bind_heap2 | rule pred_bind_vars | rule pred_bind_pair
      | rule pred_bind | rule pred_rules | (rule frames, assumption) | (rule frames, simp, assumption)
      | (rule node_store_frame, assumption, assumption) | assumption | simp)+

lemma add_sorted_frame [frames]:
  "keeps_freed h0 h \<Longrightarrow> pred_option (keeps_freed h0) (add_sorted h t p nm)"
  unfolding add_sorted_def Let_def
  by (rule pred_bind_heap | rule pred_bind_heap2 | rule pred_bind_vars | rule pred_bind_pair
      | rule pred_bind | rule pred_rules | (rule frames, assumption) | (rule frames, simp, assumption)
      | (rule node_store_frame, assumption, assumption) | assumption | simp)+

lemma sort_node_frame [frames]:
  "keeps_freed h0 h \<Longrightarrow> pred_option (keeps_freed h0) (sort_node h tree node)"
  unfolding sort_node_def Let_def
  by (rule pred_bind_heap | rule pred_bind_heap2 | rule pred_bind_vars | rule pred_bind_pair
      | rule pred_bind | rule pred_rules | (rule frames, assumption) | (rule frames, simp, assumption)
      | (rule node_store_frame, assumption, assumption) | assumption | simp)+

lemma update_comment_frame [frames]:
  "keeps_freed h0 h \<Longrightarrow> pred_option (keeps_freed h0) (update_comment h parent comment)"
  unfolding update_comment_def Let_def
  by (rule pred_bind_heap | rule pred_bind_heap2 | rule pred_bind_vars | rule pred_bind_pair
      | rule pred_bind | rule pred_rules | (rule frames, assumption) | (rule frames, simp, assumption)
      | (rule node_store_frame, assumption, assumption) | assumption | simp)+

lemma delete_all_frame [frames]:
  "keeps_freed h0 h \<Longrightarrow> pred_option (keeps_freed h0) (delete_all h ns)"
proof (induction ns arbitrary: h)
  case Nil
  then show ?case by simp
next
  case (Cons n ns)
  show ?case
    unfolding delete_all.simps
    by (rule pred_bind_heap, rule frames, rule Cons.prems, rule Cons.IH)
qed

lemma type_token_frame [frames]:
  "keeps_freed h0 h \<Longrightarrow> pred_option (keeps_freed h0) (type_token st h ws tok)"
  unfolding type_token_def Let_def
  by (rule pred_bind_heap | rule pred_bind_heap2 | rule pred_bind_vars | rule pred_bind_pair
      | rule pred_bind | rule pred_rules | (rule frames, assumption) | (rule frames, simp, assumption)
      | (rule node_store_frame, assumption, assumption) | assumption | simp)+

lemma describe_frame [frames]:
  "keeps_freed h0 h \<Longrightarrow> pred_option (keeps_freed h0) (describe h comment target)"
  unfolding describe_def Let_def
  by (rule pred_bind_heap | rule pred_bind_heap2 | rule pred_bind_vars | rule pred_bind_pair
      | rule pred_bind | rule pred_rules | (rule frames, assumption) | (rule frames, simp, assumption)
      | (rule node_store_frame, assumption, assumption) | assumption | simp)+

lemma describe_typedef_frame [frames]:
  "keeps_freed h0 h \<Longrightarrow> pred_option (keeps_freed h0) (describe_typedef h comment typedefnode)"
  unfolding describe_typedef_def Let_def
  by (rule pred_bind_heap | rule pred_bind_heap2 | rule pred_bind_vars | rule pred_bind_pair
      | rule pred_bind | rule pred_rules | (rule frames, assumption) | (rule frames, simp, assumption)
      | (rule node_store_frame, assumption, assumption) | assumption | simp)+

lemma add_variable_frame [frames]:
  "keeps_freed h0 h \<Longrightarrow> pred_option (\<lambda>(g, x). keeps_freed h0 g) (add_variable h parent name type)"
  unfolding add_variable_def Let_def
  by (rule pred_bind_heap | rule pred_bind_heap2 | rule pred_bind_vars | rule pred_bind_pair
      | rule pred_bind | rule pred_rules | (rule frames, assumption) | (rule frames, simp, assumption)
      | (rule node_store_frame, assumption, assumption) | assumption | simp)+

lemma add_description_frame [frames]:
  "keeps_freed h0 h \<Longrightarrow> pred_option (keeps_freed h0) (add_description h comment target buf)"
  unfolding add_description_def Let_def
  by (rule pred_bind_heap | rule pred_bind_heap2 | rule pred_bind_vars | rule pred_bind_pair
      | rule pred_bind | rule pred_rules | (rule frames, assumption) | (rule frames, simp, assumption)
      | (rule node_store_frame, assumption, assumption) | assumption | simp)+

lemma plain_description_frame [frames]:
  "keeps_freed h0 h \<Longrightarrow> pred_option (keeps_freed h0) (plain_description h target buf)"
  unfolding plain_description_def Let_def
  by (rule pred_bind_heap | rule pred_bind_heap2 | rule pred_bind_vars | rule pred_bind_pair
      | rule pred_bind | rule pred_rules | (rule frames, assumption) | (rule frames, simp, assumption)
      | (rule node_store_frame, assumption, assumption) | assumption | simp)+

lemma delete_if_set_frame [frames]:
  "keeps_freed h0 h \<Longrightarrow> pred_option (keeps_freed h0) (delete_if_set h p)"
  unfolding delete_if_set_def Let_def
  by (rule pred_bind_heap | rule pred_bind_heap2 | rule pred_bind_vars | rule pred_bind_pair
      | rule pred_bind | rule pred_rules | (rule frames, assumption) | (rule frames, simp, assumption)
      | (rule node_store_frame, assumption, assumption) | assumption | simp)+

lemma attach_comment_frame [frames]:
  "s_state st = s \<Longrightarrow> keeps_freed h0 h \<Longrightarrow> pred_option (\<lambda>(st1, g). keeps_freed h0 g \<and> s_state st1 = s) (attach_comment cxx tree st h)"
  unfolding attach_comment_def Let_def
  by (rule pred_bind_heap | rule pred_bind_heap2 | rule pred_bind_vars | rule pred_bind_pair
      | rule pred_bind | rule pred_rules | (rule frames, assumption) | (rule frames, simp, assumption)
      | (rule node_store_frame, assumption, assumption) | assumption | simp)+

lemma comment_done_frame [frames]:
  "s_state st = s \<Longrightarrow> keeps_freed h0 h \<Longrightarrow> pred_option (\<lambda>(st1, g). keeps_freed h0 g \<and> s_state st1 = s) (comment_done cxx tree st h)"
  unfolding comment_done_def Let_def
  by (rule pred_bind_heap | rule pred_bind_heap2 | rule pred_bind_vars | rule pred_bind_pair
      | rule pred_bind | rule pred_rules | (rule frames, assumption) | (rule frames, simp, assumption)
      | (rule node_store_frame, assumption, assumption) | assumption | simp)+

lemma start_typedef_frame [frames]:
  "keeps_freed h0 h \<Longrightarrow> pred_option (\<lambda>(g, x). keeps_freed h0 g) (start_typedef h ty)"
  unfolding start_typedef_def Let_def
  by (rule pred_bind_heap | rule pred_bind_heap2 | rule pred_bind_vars | rule pred_bind_pair
      | rule pred_bind | rule pred_rules | (rule frames, assumption) | (rule frames, simp, assumption)
      | (rule node_store_frame, assumption, assumption) | assumption | simp)+

lemma name_and_sort_frame [frames]:
  "keeps_freed h0 h \<Longrightarrow> pred_option (keeps_freed h0) (name_and_sort h tree ty node)"
  unfolding name_and_sort_def Let_def
  by (rule pred_bind_heap | rule pred_bind_heap2 | rule pred_bind_vars | rule pred_bind_pair
      | rule pred_bind | rule pred_rules | (rule frames, assumption) | (rule frames, simp, assumption)
      | (rule node_store_frame, assumption, assumption) | assumption | simp)+

lemma open_aggregate_frame [frames]:
  "s_state st = s \<Longrightarrow> keeps_freed h0 h \<Longrightarrow> pred_option (\<lambda>(req, st1, g). keeps_freed h0 g \<and> s_state st1 = s) (open_aggregate tree st h ty)"
  unfolding open_aggregate_def finish_brace_def Let_def
  by (rule pred_bind_heap | rule pred_bind_heap2 | rule pred_bind_vars | rule pred_bind_pair
      | rule pred_bind | rule pred_rules | (rule frames, assumption) | (rule frames, simp, assumption)
      | (rule node_store_frame, assumption, assumption) | assumption | simp)+

lemma open_enumeration_frame [frames]:
  "s_state st = s \<Longrightarrow> keeps_freed h0 h \<Longrightarrow> pred_option (\<lambda>(req, st1, g). keeps_freed h0 g \<and> s_state st1 = s) (open_enumeration tree st h ty)"
  unfolding open_enumeration_def finish_brace_def Let_def
  by (rule pred_bind_heap | rule pred_bind_heap2 | rule pred_bind_vars | rule pred_bind_pair
      | rule pred_bind | rule pred_rules | (rule frames, assumption) | (rule frames, simp, assumption)
      | (rule node_store_frame, assumption, assumption) | assumption | simp)+

lemma open_brace_frame [frames]:
  "s_state st = s \<Longrightarrow> keeps_freed h0 h \<Longrightarrow> pred_option (\<lambda>(req, st1, g). keeps_freed h0 g \<and> s_state st1 = s) (open_brace tree st h)"
  unfolding open_brace_def finish_brace_def Let_def
  by (rule pred_bind_heap | rule pred_bind_heap2 | rule pred_bind_vars | rule pred_bind_pair
      | rule pred_bind | rule pred_rules | (rule frames, assumption) | (rule frames, simp, assumption)
      | (rule node_store_frame, assumption, assumption) | assumption | simp)+

lemma close_paren_frame [frames]:
  "s_state st = s \<Longrightarrow> keeps_freed h0 h \<Longrightarrow> pred_option (\<lambda>(st1, g). keeps_freed h0 g \<and> s_state st1 = s) (close_paren st h)"
  unfolding close_paren_def Let_def
  by (rule pred_bind_heap | rule pred_bind_heap2 | rule pred_bind_vars | rule pred_bind_pair
      | rule pred_bind | rule pred_rules | (rule frames, assumption) | (rule frames, simp, assumption)
      | (rule node_store_frame, assumption, assumption) | assumption | simp)+

lemma semicolon_function_frame [frames]:
  "s_state st = s \<Longrightarrow> keeps_freed h0 h \<Longrightarrow> pred_option (\<lambda>(st1, g). keeps_freed h0 g \<and> s_state st1 = s) (semicolon_function tree st h)"
  unfolding semicolon_function_def Let_def
  by (rule pred_bind_heap | rule pred_bind_heap2 | rule pred_bind_vars | rule pred_bind_pair
      | rule pred_bind | rule pred_rules | (rule frames, assumption) | (rule frames, simp, assumption)
      | (rule node_store_frame, assumption, assumption) | assumption | simp)+

lemma semicolon_type_frame [frames]:
  "s_state st = s \<Longrightarrow> keeps_freed h0 h \<Longrightarrow> pred_option (\<lambda>(st1, g). keeps_freed h0 g \<and> s_state st1 = s) (semicolon_type tree st h)"
  unfolding semicolon_type_def Let_def
  by (rule pred_bind_heap | rule pred_bind_heap2 | rule pred_bind_vars | rule pred_bind_pair
      | rule pred_bind | rule pred_rules | (rule frames, assumption) | (rule frames, simp, assumption)
      | (rule node_store_frame, assumption, assumption) | assumption | simp)+

lemma start_function_frame [frames]:
  "s_state st = s \<Longrightarrow> keeps_freed h0 h \<Longrightarrow> pred_option (\<lambda>(st1, g). keeps_freed h0 g \<and> s_state st1 = s) (start_function tree st h ty)"
  unfolding start_function_def Let_def
  by (rule pred_bind_heap | rule pred_bind_heap2 | rule pred_bind_vars | rule pred_bind_pair
      | rule pred_bind | rule pred_rules | (rule frames, assumption) | (rule frames, simp, assumption)
      | (rule node_store_frame, assumption, assumption) | assumption | simp)+

lemma end_declaration_frame [frames]:
  "s_state st = s \<Longrightarrow> keeps_freed h0 h \<Longrightarrow> pred_option (\<lambda>(st1, g). keeps_freed h0 g \<and> s_state st1 = s) (end_declaration tree st h ty)"
  unfolding end_declaration_def Let_def
  by (rule pred_bind_heap | rule pred_bind_heap2 | rule pred_bind_vars | rule pred_bind_pair
      | rule pred_bind | rule pred_rules | (rule frames, assumption) | (rule frames, simp, assumption)
      | (rule node_store_frame, assumption, assumption) | assumption | simp)+

lemma end_identifier_frame [frames]:
  "s_state st = s \<Longrightarrow> keeps_freed h0 h \<Longrightarrow> pred_option (\<lambda>(st1, g). keeps_freed h0 g \<and> s_state st1 = s) (end_identifier tree st h ch)"
  unfolding end_identifier_def Let_def
  by (rule pred_bind_heap | rule pred_bind_heap2 | rule pred_bind_vars | rule pred_bind_pair
      | rule pred_bind | rule pred_rules | (rule frames, assumption) | (rule frames, simp, assumption)
      | (rule node_store_frame, assumption, assumption) | assumption | simp)+

lemma comment_newline_length:
  "comment_newline buf inp = (e, lc, b, rest) \<Longrightarrow> length (unget lc rest) \<le> length inp"
proof (induction buf inp arbitrary: e lc b rest rule: comment_newline.induct)
  case (1 buf)
  then show ?case by (simp add: unget_def)
next
  case (2 buf c cs)
  show ?case
  proof (cases "c = CHR ''*''")
    case True
    show ?thesis
    proof (cases cs)
      case Nil
      then show ?thesis using 2(4) True by (auto simp: unget_def)
    next
      case (Cons d ds)
      show ?thesis
      proof (cases "d = CHR ''/''")
        case slash: True
        then show ?thesis using 2(4) True Cons by (auto simp: unget_def)
      next
        case False
        then have "comment_newline buf cs = (e, lc, b, rest)" using 2(4) True Cons by simp
        from 2(1) [OF True Cons False this] show ?thesis by simp
      qed
    qed
  next
    case nstar: False
    show ?thesis
    proof (cases "c = CHR 0x0A \<and> buf \<noteq> [] \<and> buffer_room buf")
      case True
      then have "comment_newline (buf @ [c]) cs = (e, lc, b, rest)" using 2(4) nstar by simp
      from 2(2) [OF nstar True this] show ?thesis by simp
    next
      case nl: False
      show ?thesis
      proof (cases "isspace c")
        case True
        then have "comment_newline buf cs = (e, lc, b, rest)" using 2(4) nstar nl by auto
        from 2(3) [OF nstar nl _ this] True show ?thesis by simp
      next
        case False
        then show ?thesis using 2(4) nstar nl by (auto simp: unget_def)
      qed
    qed
  qed
qed

lemma none_char_length:
  "none_char tree st h ch inp = Some (st1, h1, inp1) \<Longrightarrow> length inp1 \<le> length inp"
  by (auto simp: none_char_def bind_eq_Some_conv Let_def split: if_splits list.splits)

lemma literal_char_length:
  "literal_char q st h ch inp = Some (st1, h1, inp1) \<Longrightarrow> length inp1 \<le> length inp"
  by (auto simp: literal_char_def bind_eq_Some_conv split: if_splits)

lemma c_comment_char_length:
  "c_comment_char tree st h ch inp = Some (st1, h1, inp1) \<Longrightarrow> length inp1 \<le> length inp"
  by (auto simp: c_comment_char_def bind_eq_Some_conv split: if_splits prod.splits
      dest: comment_newline_length)

lemma cxx_comment_char_length:
  "cxx_comment_char tree st h ch inp = Some (st1, h1, inp1) \<Longrightarrow> length inp1 \<le> length inp"
  by (auto simp: cxx_comment_char_def bind_eq_Some_conv split: if_splits)


lemma none_char_frame [frames]:
  "keeps_freed h0 h \<Longrightarrow> pred_option (\<lambda>(st1, g, inp1). keeps_freed h0 g) (none_char tree st h ch inp)"
  unfolding none_char_def Let_def
  by (rule pred_bind_heap | rule pred_bind_heap2 | rule pred_bind_vars | rule pred_bind_pair
      | rule pred_bind | rule pred_rules | (rule frames, assumption) | (rule frames, simp, assumption)
      | (rule node_store_frame, assumption, assumption) | assumption | simp)+

lemma literal_char_frame [frames]:
  "keeps_freed h0 h \<Longrightarrow> pred_option (\<lambda>(st1, g, inp1). keeps_freed h0 g) (literal_char q st h ch inp)"
  unfolding literal_char_def Let_def
  by (rule pred_bind_heap | rule pred_bind_heap2 | rule pred_bind_vars | rule pred_bind_pair
      | rule pred_bind | rule pred_rules | (rule frames, assumption) | (rule frames, simp, assumption)
      | (rule node_store_frame, assumption, assumption) | assumption | simp)+

lemma pred_bind_plain:
  "pred_option (\<lambda>(st1 :: scan_vars, g). keeps_freed h0 g) m \<Longrightarrow>
   (\<And>st1 g. keeps_freed h0 g \<Longrightarrow> pred_option Q (f st1 g)) \<Longrightarrow>
   pred_option Q (m \<bind> case_prod f)"
  by (cases m) auto

lemma comment_done_plain:
  assumes k: "keeps_freed h0 h"
  shows "pred_option (\<lambda>(st1, g). keeps_freed h0 g) (comment_done cxx tree st h)"
proof -
  have "pred_option (\<lambda>(st1, g). keeps_freed h0 g \<and> s_state st1 = s_state st)
          (comment_done cxx tree st h)"
    using refl k by (rule comment_done_frame)
  then show ?thesis by (cases "comment_done cxx tree st h") auto
qed

lemma c_comment_char_frame [frames]:
  "keeps_freed h0 h \<Longrightarrow> pred_option (\<lambda>(st1, g, inp1). keeps_freed h0 g) (c_comment_char tree st h ch inp)"
  unfolding c_comment_char_def Let_def
  by (rule pred_bind_plain | rule pred_bind_pair
      | rule pred_bind | rule pred_rules | (rule comment_done_plain, assumption)
      | assumption | simp)+

lemma cxx_comment_char_frame [frames]:
  "keeps_freed h0 h \<Longrightarrow> pred_option (\<lambda>(st1, g, inp1). keeps_freed h0 g) (cxx_comment_char tree st h ch inp)"
  unfolding cxx_comment_char_def Let_def
  by (rule pred_bind_heap | rule pred_bind_heap2 | rule pred_bind_vars | rule pred_bind_pair
      | rule pred_bind | rule pred_rules | (rule frames, assumption) | (rule frames, simp, assumption)
      | (rule node_store_frame, assumption, assumption) | assumption | simp)+

lemma identifier_step_frame [frames]:
  "keeps_freed h0 h \<Longrightarrow>
   pred_option (\<lambda>(st1, g, inp1). keeps_freed h0 g \<and>
                  (inp1 = inp \<or> (inp1 = ch # inp \<and> s_state st1 = STATE_NONE)))
     (identifier_step tree st h ch inp)"
  unfolding identifier_step_def Let_def
  by (rule pred_bind_heap | rule pred_bind_heap2 | rule pred_bind_vars | rule pred_bind_pair
      | rule pred_bind | rule pred_rules | (rule frames, assumption) | (rule frames, simp, assumption)
      | (rule node_store_frame, assumption, assumption) | assumption | simp)+

lemma plain_step_frame:
  assumes "keeps_freed h0 h" and "plain_step tree st h ch inp = Some (st1, h1, inp1)"
  shows "keeps_freed h0 h1"
proof (cases "s_state st")
  case STATE_NONE
  have "pred_option (\<lambda>(st1, g, inp1). keeps_freed h0 g) (none_char tree st h ch inp)"
    using assms(1) by (rule none_char_frame)
  then show ?thesis using assms(2) STATE_NONE by (simp add: plain_step_def)
next
  case STATE_PREPROCESSOR
  then show ?thesis using assms by (auto simp: plain_step_def split: if_splits)
next
  case STATE_C_COMMENT
  have "pred_option (\<lambda>(st1, g, inp1). keeps_freed h0 g) (c_comment_char tree st h ch inp)"
    using assms(1) by (rule c_comment_char_frame)
  then show ?thesis using assms(2) STATE_C_COMMENT by (simp add: plain_step_def)
next
  case STATE_CXX_COMMENT
  have "pred_option (\<lambda>(st1, g, inp1). keeps_freed h0 g) (cxx_comment_char tree st h ch inp)"
    using assms(1) by (rule cxx_comment_char_frame)
  then show ?thesis using assms(2) STATE_CXX_COMMENT by (simp add: plain_step_def)
next
  case STATE_STRING
  have "pred_option (\<lambda>(st1, g, inp1). keeps_freed h0 g) (literal_char (CHR 0x22) st h ch inp)"
    using assms(1) by (rule literal_char_frame)
  then show ?thesis using assms(2) STATE_STRING by (simp add: plain_step_def)
next
  case STATE_CHARACTER
  have "pred_option (\<lambda>(st1, g, inp1). keeps_freed h0 g) (literal_char (CHR 0x27) st h ch inp)"
    using assms(1) by (rule literal_char_frame)
  then show ?thesis using assms(2) STATE_CHARACTER by (simp add: plain_step_def)
next
  case STATE_IDENTIFIER
  have "pred_option (\<lambda>(st1, g, inp1). keeps_freed h0 g \<and>
                  (inp1 = inp \<or> (inp1 = ch # inp \<and> s_state st1 = STATE_NONE)))
     (identifier_step tree st h ch inp)"
    using assms(1) by (rule identifier_step_frame)
  then show ?thesis using assms(2) STATE_IDENTIFIER by (simp add: plain_step_def)
qed

lemma plain_step_measure:
  assumes "plain_step tree st h ch inp = Some (st1, h1, inp1)"
  shows "2 * length inp1 + pending st1 < 2 * length (ch # inp) + pending st"
proof (cases "s_state st")
  case STATE_NONE
  then have "length inp1 \<le> length inp"
    using assms none_char_length by (simp add: plain_step_def)
  then show ?thesis by (simp add: pending_def)
next
  case STATE_PREPROCESSOR
  then have "length inp1 \<le> length inp"
    using assms by (auto simp: plain_step_def split: if_splits)
  then show ?thesis by (simp add: pending_def)
next
  case STATE_C_COMMENT
  then have "length inp1 \<le> length inp"
    using assms c_comment_char_length by (simp add: plain_step_def)
  then show ?thesis by (simp add: pending_def)
next
  case STATE_CXX_COMMENT
  then have "length inp1 \<le> length inp"
    using assms cxx_comment_char_length by (simp add: plain_step_def)
  then show ?thesis by (simp add: pending_def)
next
  case STATE_STRING
  then have "length inp1 \<le> length inp"
    using assms literal_char_length by (simp add: plain_step_def)
  then show ?thesis by (simp add: pending_def)
next
  case STATE_CHARACTER
  then have "length inp1 \<le> length inp"
    using assms literal_char_length by (simp add: plain_step_def)
  then show ?thesis by (simp add: pending_def)
next
  case STATE_IDENTIFIER
  have "pred_option (\<lambda>(st1, g, inp1). keeps_freed h g \<and>
                  (inp1 = inp \<or> (inp1 = ch # inp \<and> s_state st1 = STATE_NONE)))
     (identifier_step tree st h ch inp)"
    using keeps_freed_refl by (rule identifier_step_frame)
  then have "inp1 = inp \<or> (inp1 = ch # inp \<and> s_state st1 = STATE_NONE)"
    using assms STATE_IDENTIFIER by (simp add: plain_step_def)
  then show ?thesis using STATE_IDENTIFIER by (auto simp: pending_def)
qed

lemma leave_frame:
  assumes "keeps_freed h0 h" and "leave rc st h inp = Returned rc1 h1 inp1"
  shows "keeps_freed h0 h1 \<and> rc1 = rc \<and> inp1 = inp"
proof -
  have "pred_option (keeps_freed h0) (mxmlDelete h (s_comment st))"
    using assms(1) by (rule mxmlDelete_frame)
  then show ?thesis using assms(2)
    by (cases "mxmlDelete h (s_comment st)") (auto simp: leave_def)
qed

lemma leave_defined: "leave rc st h inp \<noteq> OutOfFuel"
  by (simp add: leave_def split: option.splits)

lemma init_scan_frame:
  assumes "keeps_freed h0 h" and "init_scan h tree = Some (st0, g)"
  shows "keeps_freed h0 g \<and> s_state st0 = STATE_NONE"
proof -
  obtain h1 comment where n: "mxmlNewElement h None ''temp'' = Some (h1, comment)" and g: "g = h1"
    and s: "s_state st0 = STATE_NONE"
    using assms(2) by (auto simp: init_scan_def bind_eq_Some_conv)
  have "pred_option (\<lambda>(g, x). keeps_freed h0 g) (mxmlNewElement h None ''temp'')"
    using assms(1) by (rule mxmlNewElement_frame)
  then show ?thesis using n g s by simp
qed

lemma open_brace_state:
  assumes "keeps_freed h0 h" and "open_brace tree st h = Some (req, st1, h1)"
  shows "keeps_freed h0 h1 \<and> s_state st1 = s_state st"
proof -
  have "pred_option (\<lambda>(req, st1, g). keeps_freed h0 g \<and> s_state st1 = s_state st)
          (open_brace tree st h)"
    using refl assms(1) by (rule open_brace_frame)
  then show ?thesis using assms(2) by simp
qed



section \<open>The loop: result, termination and the bound on iterations\<close>

lemma scan_loop_returns:
  "keeps_freed h0 h \<Longrightarrow> scan_loop k tree st h inp = Returned rc h' rest \<Longrightarrow>
   keeps_freed h0 h' \<and> rc = 0 \<and> length rest \<le> length inp"
proof (induction k arbitrary: tree st h inp rc h' rest)
  case 0
  then show ?case by simp
next
  case (Suc k)
  note kf = Suc.prems(1) and ret = Suc.prems(2)
  show ?case
  proof (cases inp)
    case Nil
    then have "leave 0 st h [] = Returned rc h' rest" using ret by simp
    from leave_frame [OF kf this] show ?thesis using Nil by simp
  next
    case (Cons ch inp')
    show ?thesis
    proof (cases "s_state st = STATE_NONE \<and> ch = CHR ''{''")
      case brace: True
      show ?thesis
      proof (cases "open_brace tree st h")
        case None
        then show ?thesis using brace Cons ret by simp
      next
        case (Some r)
        obtain req st1 h1 where r: "r = (req, st1, h1)" by (cases r)
        have k1: "keeps_freed h0 h1"
          using open_brace_state [OF kf] Some r by blast
        show ?thesis
        proof (cases req)
          case None
          then have "scan_loop k tree st1 h1 inp' = Returned rc h' rest"
            using brace Cons Some r ret by simp
          from Suc.IH [OF k1 this] show ?thesis using Cons by simp
        next
          case req: (Some q)
          obtain root is_extern where q: "q = (root, is_extern)" by (cases q)
          show ?thesis
          proof (cases "init_scan h1 root")
            case None
            then show ?thesis using brace Cons Some r req q ret by simp
          next
            case init: (Some i)
            obtain st0 g0 where i: "i = (st0, g0)" by (cases i)
            have k0: "keeps_freed h0 g0" using init_scan_frame [OF k1] init i by blast
            have unf: "scan_loop (Suc k) tree st h inp =
                (case scan_loop k root st0 g0 inp' of
                     Returned rc h2 inp2 \<Rightarrow>
                       if rc \<noteq> 0 then leave (- 1) st1 h2 inp2
                       else scan_loop k tree (after_scan is_extern st1) h2 inp2
                   | other \<Rightarrow> other)"
              using brace Cons Some r req q init i by simp
            show ?thesis
            proof (cases "scan_loop k root st0 g0 inp'")
              case OutOfFuel
              then show ?thesis using ret unfolding unf by simp
            next
              case Undefined
              then show ?thesis using ret unfolding unf by simp
            next
              case (Returned rc2 h2 inp2)
              from Suc.IH [OF k0 this]
              have i2: "keeps_freed h0 h2" "rc2 = 0" "length inp2 \<le> length inp'" by simp_all
              have "scan_loop k tree (after_scan is_extern st1) h2 inp2 = Returned rc h' rest"
                using ret unfolding unf Returned using i2(2) by simp
              from Suc.IH [OF i2(1) this] show ?thesis using i2(3) Cons by simp
            qed
          qed
        qed
      qed
    next
      case nb: False
      then have 1: "(s_state st = STATE_NONE \<and> ch = CHR ''{'') = False" by simp
      show ?thesis
      proof (cases "s_state st = STATE_NONE \<and> ch = CHR ''}''")
        case True
        then have 2: "(s_state st = STATE_NONE \<and> ch = CHR ''}'') = True" by simp
        show ?thesis
        proof (cases "0 < s_braces st")
          case b: True
          have "scan_loop (Suc k) tree st h inp =
                scan_loop k tree ((close_brace st)\<lparr>s_braces := s_braces st - 1\<rparr>) h inp'"
            unfolding Cons using b by (simp only: scan_loop.simps 1 2 if_False if_True)
          then have "scan_loop k tree ((close_brace st)\<lparr>s_braces := s_braces st - 1\<rparr>) h inp'
                       = Returned rc h' rest" using ret by simp
          from Suc.IH [OF kf this] show ?thesis using Cons by simp
        next
          case False
          have "scan_loop (Suc k) tree st h inp = leave 0 (close_brace st) h inp'"
            unfolding Cons using False by (simp only: scan_loop.simps 1 2 if_False if_True)
          then have "leave 0 (close_brace st) h inp' = Returned rc h' rest" using ret by simp
          from leave_frame [OF kf this] show ?thesis using Cons by simp
        qed
      next
        case False
        then have 2: "(s_state st = STATE_NONE \<and> ch = CHR ''}'') = False" by simp
        have unf: "scan_loop (Suc k) tree st h inp =
            (case plain_step tree st h ch inp' of
               None \<Rightarrow> Undefined
             | Some (st1, h1, inp1) \<Rightarrow> scan_loop k tree st1 h1 inp1)"
          unfolding Cons by (simp only: scan_loop.simps 1 2 if_False)
        show ?thesis
        proof (cases "plain_step tree st h ch inp'")
          case None
          then show ?thesis using ret unfolding unf by simp
        next
          case (Some r)
          obtain st1 h1 inp1 where r: "r = (st1, h1, inp1)" by (cases r)
          have ps: "plain_step tree st h ch inp' = Some (st1, h1, inp1)" using Some r by simp
          have k1: "keeps_freed h0 h1" using plain_step_frame [OF kf ps] .
          have l1: "length inp1 \<le> length inp" using plain_step_measure [OF ps] Cons
            by (simp add: pending_def split: if_splits)
          have "scan_loop k tree st1 h1 inp1 = Returned rc h' rest"
            using ret unfolding unf Some r by simp
          from Suc.IH [OF k1 this] show ?thesis using l1 by simp
        qed
      qed
    qed
  qed
qed

lemma scan_loop_terminates:
  "2 * length inp + pending st < k \<Longrightarrow> scan_loop k tree st h inp \<noteq> OutOfFuel"
proof (induction k arbitrary: tree st h inp)
  case 0
  then show ?case by simp
next
  case (Suc k)
  note bound = Suc.prems
  show ?case
  proof (cases inp)
    case Nil
    then show ?thesis by (simp add: leave_defined)
  next
    case (Cons ch inp')
    show ?thesis
    proof (cases "s_state st = STATE_NONE \<and> ch = CHR ''{''")
      case brace: True
      have b': "2 * length inp' + 1 < k" using bound Cons by simp
      show ?thesis
      proof (cases "open_brace tree st h")
        case None
        then show ?thesis using brace Cons by simp
      next
        case (Some r)
        obtain req st1 h1 where r: "r = (req, st1, h1)" by (cases r)
        have s1: "s_state st1 = STATE_NONE"
          using open_brace_state [OF keeps_freed_refl] Some r brace by fastforce
        show ?thesis
        proof (cases req)
          case None
          have "2 * length inp' + pending st1 < k" using b' s1 by (simp add: pending_def)
          from Suc.IH [OF this] show ?thesis using brace Cons Some r None by simp
        next
          case req: (Some q)
          obtain root is_extern where q: "q = (root, is_extern)" by (cases q)
          show ?thesis
          proof (cases "init_scan h1 root")
            case None
            then show ?thesis using brace Cons Some r req q by simp
          next
            case init: (Some i)
            obtain st0 g0 where i: "i = (st0, g0)" by (cases i)
            have s0: "s_state st0 = STATE_NONE"
              using init_scan_frame [OF keeps_freed_refl] init i by blast
            have unf: "scan_loop (Suc k) tree st h inp =
                (case scan_loop k root st0 g0 inp' of
                     Returned rc h2 inp2 \<Rightarrow>
                       if rc \<noteq> 0 then leave (- 1) st1 h2 inp2
                       else scan_loop k tree (after_scan is_extern st1) h2 inp2
                   | other \<Rightarrow> other)"
              using brace Cons Some r req q init i by simp
            have "2 * length inp' + pending st0 < k" using b' s0 by (simp add: pending_def)
            from Suc.IH [OF this] have inner: "scan_loop k root st0 g0 inp' \<noteq> OutOfFuel" .
            show ?thesis
            proof (cases "scan_loop k root st0 g0 inp'")
              case OutOfFuel
              then show ?thesis using inner by simp
            next
              case Undefined
              then show ?thesis unfolding unf by simp
            next
              case (Returned rc2 h2 inp2)
              from scan_loop_returns [OF keeps_freed_refl this]
              have l2: "length inp2 \<le> length inp'" by simp
              have "s_state (after_scan is_extern st1) = STATE_NONE"
                using s1 by (simp add: after_scan_def finish_brace_def)
              then have "2 * length inp2 + pending (after_scan is_extern st1) < k"
                using b' l2 by (simp add: pending_def)
              from Suc.IH [OF this] show ?thesis
                unfolding unf Returned by (simp add: leave_defined)
            qed
          qed
        qed
      qed
    next
      case nb: False
      then have 1: "(s_state st = STATE_NONE \<and> ch = CHR ''{'') = False" by simp
      show ?thesis
      proof (cases "s_state st = STATE_NONE \<and> ch = CHR ''}''")
        case True
        then have 2: "(s_state st = STATE_NONE \<and> ch = CHR ''}'') = True" by simp
        show ?thesis
        proof (cases "0 < s_braces st")
          case b: True
          have e: "scan_loop (Suc k) tree st h inp =
                scan_loop k tree ((close_brace st)\<lparr>s_braces := s_braces st - 1\<rparr>) h inp'"
            unfolding Cons using b by (simp only: scan_loop.simps 1 2 if_False if_True)
          have "s_state ((close_brace st)\<lparr>s_braces := s_braces st - 1\<rparr>) = STATE_NONE"
            using True by (simp add: close_brace_def)
          then have "2 * length inp' + pending ((close_brace st)\<lparr>s_braces := s_braces st - 1\<rparr>) < k"
            using bound Cons by (simp add: pending_def)
          from Suc.IH [OF this] show ?thesis unfolding e .
        next
          case False
          have "scan_loop (Suc k) tree st h inp = leave 0 (close_brace st) h inp'"
            unfolding Cons using False by (simp only: scan_loop.simps 1 2 if_False if_True)
          then show ?thesis by (simp add: leave_defined)
        qed
      next
        case False
        then have 2: "(s_state st = STATE_NONE \<and> ch = CHR ''}'') = False" by simp
        have unf: "scan_loop (Suc k) tree st h inp =
            (case plain_step tree st h ch inp' of
               None \<Rightarrow> Undefined
             | Some (st1, h1, inp1) \<Rightarrow> scan_loop k tree st1 h1 inp1)"
          unfolding Cons by (simp only: scan_loop.simps 1 2 if_False)
        show ?thesis
        proof (cases "plain_step tree st h ch inp'")
          case None
          then show ?thesis unfolding unf by simp
        next
          case (Some r)
          obtain st1 h1 inp1 where r: "r = (st1, h1, inp1)" by (cases r)
          have ps: "plain_step tree st h ch inp' = Some (st1, h1, inp1)" using Some r by simp
          have "2 * length inp1 + pending st1 < k"
            using plain_step_measure [OF ps] bound Cons by simp
          from Suc.IH [OF this] show ?thesis unfolding unf Some r by simp
        qed
      qed
    qed
  qed
qed

lemma scan_loop_more_fuel:
  "scan_loop k tree st h inp \<noteq> OutOfFuel \<Longrightarrow> k \<le> k' \<Longrightarrow>
   scan_loop k' tree st h inp = scan_loop k tree st h inp"
proof (induction k arbitrary: k' tree st h inp)
  case 0
  then show ?case by simp
next
  case (Suc k)
  obtain m where k': "k' = Suc m" and km: "k \<le> m" using Suc.prems(2) by (cases k') auto
  show ?case
  proof (cases inp)
    case Nil
    then show ?thesis by (simp add: k')
  next
    case (Cons ch rest)
    show ?thesis
    proof (cases "s_state st = STATE_NONE \<and> ch = CHR ''{''")
      case brace: True
      show ?thesis
      proof (cases "open_brace tree st h")
        case None
        then show ?thesis using brace Cons by (simp add: k')
      next
        case (Some r)
        obtain req st1 h1 where r: "r = (req, st1, h1)" by (cases r)
        show ?thesis
        proof (cases req)
          case None
          then have "scan_loop (Suc k) tree st h inp = scan_loop k tree st1 h1 rest"
            and "scan_loop (Suc m) tree st h inp = scan_loop m tree st1 h1 rest"
            using brace Cons Some r by simp_all
          then show ?thesis using Suc.IH [OF _ km] Suc.prems(1) by (simp add: k')
        next
          case req: (Some q)
          obtain root is_extern where q: "q = (root, is_extern)" by (cases q)
          show ?thesis
          proof (cases "init_scan h1 root")
            case None
            then show ?thesis using brace Cons Some r req q by (simp add: k')
          next
            case init: (Some i)
            obtain st0 h0 where i: "i = (st0, h0)" by (cases i)
            have unf: "scan_loop (Suc n) tree st h inp =
                (case scan_loop n root st0 h0 rest of
                     Returned rc h2 inp2 \<Rightarrow>
                       if rc \<noteq> 0 then leave (- 1) st1 h2 inp2
                       else scan_loop n tree (after_scan is_extern st1) h2 inp2
                   | other \<Rightarrow> other)" for n
              using brace Cons Some r req q init i by simp
            have inner: "scan_loop k root st0 h0 rest \<noteq> OutOfFuel"
              using Suc.prems(1) unfolding unf by (auto split: scan_outcome.splits)
            have e1: "scan_loop m root st0 h0 rest = scan_loop k root st0 h0 rest"
              using Suc.IH [OF inner km] .
            show ?thesis
            proof (cases "scan_loop k root st0 h0 rest")
              case OutOfFuel
              then show ?thesis using inner by simp
            next
              case Undefined
              then show ?thesis unfolding k' unf e1 by simp
            next
              case (Returned rc h2 inp2)
              show ?thesis
              proof (cases "rc = 0")
                case True
                have "scan_loop k tree (after_scan is_extern st1) h2 inp2 \<noteq> OutOfFuel"
                  using Suc.prems(1) unfolding unf Returned using True by simp
                from Suc.IH [OF this km] show ?thesis unfolding k' unf e1 Returned using True by simp
              next
                case False
                then show ?thesis unfolding k' unf e1 Returned by simp
              qed
            qed
          qed
        qed
      qed
    next
      case nb: False
      show ?thesis
      proof (cases "s_state st = STATE_NONE \<and> ch = CHR ''}''")
        case True
        show ?thesis
        proof (cases "0 < s_braces st")
          case b: True
          have 1: "(s_state st = STATE_NONE \<and> ch = CHR ''{'') = False" using nb by simp
          have 2: "(s_state st = STATE_NONE \<and> ch = CHR ''}'') = True" using True by simp
          have "scan_loop (Suc n) tree st h inp =
                scan_loop n tree ((close_brace st)\<lparr>s_braces := s_braces st - 1\<rparr>) h rest" for n
            unfolding Cons using b by (simp only: scan_loop.simps 1 2 if_False if_True)
          then show ?thesis using Suc.IH [OF _ km] Suc.prems(1) by (simp add: k')
        next
          case False
          have 1: "(s_state st = STATE_NONE \<and> ch = CHR ''{'') = False" using nb by simp
          have 2: "(s_state st = STATE_NONE \<and> ch = CHR ''}'') = True" using True by simp
          have "scan_loop (Suc n) tree st h inp = leave 0 (close_brace st) h rest" for n
            unfolding Cons using False by (simp only: scan_loop.simps 1 2 if_False if_True)
          then show ?thesis by (simp add: k')
        qed
      next
        case False
        have unf: "scan_loop (Suc n) tree st h inp =
            (case plain_step tree st h ch rest of
               None \<Rightarrow> Undefined
             | Some (st1, h1, inp1) \<Rightarrow> scan_loop n tree st1 h1 inp1)" for n
        proof -
          have 1: "(s_state st = STATE_NONE \<and> ch = CHR ''{'') = False" using nb by simp
          have 2: "(s_state st = STATE_NONE \<and> ch = CHR ''}'') = False" using False by simp
          show "scan_loop (Suc n) tree st h inp =
            (case plain_step tree st h ch rest of
               None \<Rightarrow> Undefined
             | Some (st1, h1, inp1) \<Rightarrow> scan_loop n tree st1 h1 inp1)" for n
            unfolding Cons by (simp only: scan_loop.simps 1 2 if_False)
        qed
        show ?thesis
        proof (cases "plain_step tree st h ch rest")
          case None
          then show ?thesis unfolding k' unf by simp
        next
          case (Some r)
          obtain st1 h1 inp1 where r: "r = (st1, h1, inp1)" by (cases r)
          have "scan_loop k tree st1 h1 inp1 \<noteq> OutOfFuel"
            using Suc.prems(1) unfolding unf Some r by simp
          from Suc.IH [OF this km] show ?thesis unfolding k' unf Some r by simp
        qed
      qed
    qed
  qed
qed

lemma scan_file_more_fuel:
  assumes "scan_file k f h inp tree \<noteq> OutOfFuel" and "k \<le> k'"
  shows "scan_file k' f' h inp tree = scan_file k f h inp tree"
proof (cases "init_scan h tree")
  case None
  then show ?thesis by (simp add: scan_file_def)
next
  case (Some r)
  obtain st0 h0 where r: "r = (st0, h0)" by (cases r)
  have "scan_loop k tree st0 h0 inp \<noteq> OutOfFuel"
    using assms(1) Some r by (simp add: scan_file_def)
  from scan_loop_more_fuel [OF this assms(2)] show ?thesis
    using Some r by (simp add: scan_file_def)
qed

lemma scan_new_more_fuel:
  assumes "scan_new k f inp \<noteq> OutOfFuel" and "k \<le> k'"
  shows "scan_new k' f' inp = scan_new k f inp"
proof (cases "new_documentation []")
  case None
  then show ?thesis by (simp add: scan_new_def)
next
  case (Some r)
  obtain h doc mxmldoc where r: "r = (h, doc, mxmldoc)" by (cases r)
  have "scan_file k f h inp mxmldoc \<noteq> OutOfFuel"
    using assms(1) Some r by (simp add: scan_new_def)
  from scan_file_more_fuel [OF this assms(2)] show ?thesis
    using Some r by (simp add: scan_new_def)
qed


section \<open>Scanning a literal\<close>

lemma mxmlNewText_appends:
  assumes ty: "node_at h ty = Some tn"
  shows "\<exists>h'. mxmlNewText h (Some ty) ws s = Some (h', length h) \<and> length h' = Suc (length h) \<and>
           node_at h' (length h) = Some \<lparr>n_parent = Some ty, n_children = [], n_value = Text ws s\<rparr> \<and>
           node_at h' ty = Some (tn\<lparr>n_children := n_children tn @ [length h]\<rparr>) \<and>
           (\<forall>x. x \<noteq> ty \<longrightarrow> x < length h \<longrightarrow> node_at h' x = node_at h x)"
proof -
  define new where "new = \<lparr>n_parent = None, n_children = [], n_value = Text ws s\<rparr>"
  define h1 where "h1 = h @ [Some new]"
  have lt: "ty < length h" using ty node_at_less by simp
  have p: "node_at h1 (length h) = Some new" by (simp add: h1_def node_at_def)
  have t1: "node_at h1 ty = Some tn" using ty lt by (simp add: h1_def node_at_def nth_append)
  have rem: "mxmlRemove h1 (length h) = Some h1" using p by (simp add: mxmlRemove_def new_def)
  define h2 where "h2 = store h1 ty (tn\<lparr>n_children := n_children tn @ [length h]\<rparr>)"
  have p2: "node_at h2 (length h) = Some new" using p lt by (simp add: h2_def node_at_store)
  define h' where "h' = store h2 (length h) (new\<lparr>n_parent := Some ty\<rparr>)"
  have add: "mxmlAdd h1 ty MXML_ADD_AFTER None (length h) = Some h'"
    using rem t1 p2 by (simp add: mxmlAdd_def Let_def h2_def h'_def)
  have "mxmlNewText h (Some ty) ws s = Some (h', length h)"
    using add by (simp add: mxmlNewText_def mxml_new_def Let_def h1_def new_def)
  moreover have "length h' = Suc (length h)" by (simp add: h'_def h2_def h1_def)
  moreover have "node_at h' (length h) = Some \<lparr>n_parent = Some ty, n_children = [], n_value = Text ws s\<rparr>"
    by (simp add: h'_def node_at_store h2_def h1_def new_def)
  moreover have "node_at h' ty = Some (tn\<lparr>n_children := n_children tn @ [length h]\<rparr>)"
    using lt by (simp add: h'_def node_at_store h2_def h1_def)
  moreover have "\<forall>x. x \<noteq> ty \<longrightarrow> x < length h \<longrightarrow> node_at h' x = node_at h x"
    by (simp add: h'_def h2_def node_at_store) (simp add: h1_def node_at_def nth_append)
  ultimately show ?thesis by blast
qed

lemma scan_loop_plain:
  assumes "s_state st \<noteq> STATE_NONE \<or> (ch \<noteq> CHR ''{'' \<and> ch \<noteq> CHR ''}'')"
    and "plain_step tree st h ch inp = Some (st1, h1, inp1)"
  shows "scan_loop (Suc k) tree st h (ch # inp) = scan_loop k tree st1 h1 inp1"
proof -
  have 1: "(s_state st = STATE_NONE \<and> ch = CHR ''{'') = False" using assms(1) by auto
  have 2: "(s_state st = STATE_NONE \<and> ch = CHR ''}'') = False" using assms(1) by auto
  show ?thesis using assms(2) by (simp only: scan_loop.simps 1 2 if_False option.case prod.case)
qed

lemma literal_state_distinct: "literal_state q \<noteq> STATE_NONE"
  by (simp add: literal_state_def)

lemma plain_literal:
  assumes "s_state st = literal_state q" and "q = CHR 0x22 \<or> q = CHR 0x27"
  shows "plain_step tree st h ch inp = literal_char q st h ch inp"
  using assms by (auto simp: plain_step_def literal_state_def)

lemma literal_close:
  assumes st: "s_state st = literal_state q" and q: "q = CHR 0x22 \<or> q = CHR 0x27"
    and room: "length (s_buffer st) + 1 < BUFFER_SIZE"
    and ty: "\<forall>ty. s_type st = Some ty \<longrightarrow> node_at h ty \<noteq> None"
  shows "\<exists>g. literal_added h (s_type st) (c_string (s_buffer st @ [q])) g \<and>
             plain_step tree st h q inp
               = Some (st\<lparr>s_state := STATE_NONE, s_buffer := s_buffer st @ [q]\<rparr>, g, inp)"
proof -
  have nb: "q \<noteq> CHR 0x5C" using q by auto
  have put: "put_unchecked (s_buffer st) q = Some (s_buffer st @ [q])"
    using room by (simp add: put_unchecked_def)
  have fin: "terminate (s_buffer st @ [q]) = Some (s_buffer st @ [q])"
    using room by (simp add: terminate_def)
  show ?thesis
  proof (cases "s_type st")
    case None
    then show ?thesis
      unfolding plain_literal [OF st q]
      using nb put fin by (simp add: literal_char_def literal_added_def)
  next
    case (Some t)
    then obtain tn where tn: "node_at h t = Some tn" using ty by auto
    have fc: "first_child h t = Some (case n_children tn of [] \<Rightarrow> None | c # _ \<Rightarrow> Some c)"
      using tn by (simp add: first_child_def)
    have ne: "((case n_children tn of [] \<Rightarrow> None | c # _ \<Rightarrow> Some c) \<noteq> None) = (children h t \<noteq> [])"
      using tn by (cases "n_children tn") (simp_all add: children_def)
    obtain g where g: "mxmlNewText h (Some t) (children h t \<noteq> []) (c_string (s_buffer st @ [q]))
                         = Some (g, length h)"
        "length g = Suc (length h)"
        "node_at g (length h) = Some \<lparr>n_parent = Some t, n_children = [],
            n_value = Text (children h t \<noteq> []) (c_string (s_buffer st @ [q]))\<rparr>"
        "node_at g t = Some (tn\<lparr>n_children := n_children tn @ [length h]\<rparr>)"
        "\<forall>x. x \<noteq> t \<longrightarrow> x < length h \<longrightarrow> node_at g x = node_at h x"
      using mxmlNewText_appends [OF tn] by blast
    have "literal_added h (s_type st) (c_string (s_buffer st @ [q])) g"
      using Some g tn by (simp add: literal_added_def children_def list_all_iff)
    moreover have "plain_step tree st h q inp
               = Some (st\<lparr>s_state := STATE_NONE, s_buffer := s_buffer st @ [q]\<rparr>, g, inp)"
      unfolding plain_literal [OF st q]
      using nb put fin Some fc ne g(1) by (simp add: literal_char_def)
    ultimately show ?thesis by blast
  qed
qed

lemma literal_escape:
  assumes st: "s_state st = literal_state q" and q: "q = CHR 0x22 \<or> q = CHR 0x27"
    and room: "length (s_buffer st) + 2 \<le> BUFFER_SIZE"
  shows "plain_step tree st h (CHR 0x5C) (d # ds)
           = Some (st\<lparr>s_buffer := s_buffer st @ [CHR 0x5C, d]\<rparr>, h, ds)"
  unfolding plain_literal [OF st q]
  using room by (simp add: literal_char_def put_unchecked_def)

lemma literal_other:
  assumes st: "s_state st = literal_state q" and q: "q = CHR 0x22 \<or> q = CHR 0x27"
    and room: "length (s_buffer st) + 1 \<le> BUFFER_SIZE" and c: "c \<noteq> CHR 0x5C" "c \<noteq> q"
  shows "plain_step tree st h c inp = Some (st\<lparr>s_buffer := s_buffer st @ [c]\<rparr>, h, inp)"
  unfolding plain_literal [OF st q]
  using room c by (simp add: literal_char_def put_unchecked_def)

lemma literal_loop:
  assumes "literal_body q inp = Some (body, rest, n)"
    and "s_state st = literal_state q" and "q = CHR 0x22 \<or> q = CHR 0x27"
    and "length (s_buffer st) + length body < BUFFER_SIZE"
    and "\<forall>ty. s_type st = Some ty \<longrightarrow> node_at h ty \<noteq> None"
  shows "\<exists>g. literal_added h (s_type st) (c_string (s_buffer st @ body)) g \<and>
             (\<forall>k. scan_loop (k + n) tree st h inp =
                   scan_loop k tree (st\<lparr>s_state := STATE_NONE, s_buffer := s_buffer st @ body\<rparr>) g rest)"
  using assms
proof (induction q inp arbitrary: body rest n st rule: literal_body.induct)
  case (1 q)
  then show ?case by simp
next
  case (2 q c)
  then have c: "c = q" and b: "body = [c]" "rest = []" "n = 1"
    by (auto split: if_splits)
  have ns: "s_state st \<noteq> STATE_NONE \<or> (q \<noteq> CHR ''{'' \<and> q \<noteq> CHR ''}'')"
    using "2.prems"(2) literal_state_distinct by simp
  obtain g where g: "literal_added h (s_type st) (c_string (s_buffer st @ [q])) g"
      "plain_step tree st h q [] = Some (st\<lparr>s_state := STATE_NONE, s_buffer := s_buffer st @ [q]\<rparr>, g, [])"
    using literal_close [OF "2.prems"(2,3) _ "2.prems"(5), of tree "[]"] "2.prems"(4) b by auto
  show ?case using g(1) scan_loop_plain [OF ns g(2)] c b by auto
next
  case (3 q c d ds)
  note st = "3.prems"(2) and q = "3.prems"(3) and room = "3.prems"(4) and ty = "3.prems"(5)
  have ns: "s_state st \<noteq> STATE_NONE \<or> (x \<noteq> CHR ''{'' \<and> x \<noteq> CHR ''}'')" for x
    using st literal_state_distinct by simp
  show ?case
  proof (cases "c = CHR 0x5C")
    case True
    then obtain b0 n0 where b0: "literal_body q ds = Some (b0, rest, n0)"
        "body = c # d # b0" "n = Suc n0"
      using "3.prems"(1) by auto
    define st1 where "st1 = st\<lparr>s_buffer := s_buffer st @ [CHR 0x5C, d]\<rparr>"
    have step: "plain_step tree st h c (d # ds) = Some (st1, h, ds)"
      unfolding st1_def True using literal_escape [OF st q] room b0(2) by simp
    have "\<exists>g. literal_added h (s_type st1) (c_string (s_buffer st1 @ b0)) g \<and>
             (\<forall>k. scan_loop (k + n0) tree st1 h ds =
                   scan_loop k tree (st1\<lparr>s_state := STATE_NONE, s_buffer := s_buffer st1 @ b0\<rparr>) g rest)"
      using "3.IH"(1) [OF True b0(1), of st1] st q room ty b0(2) by (simp add: st1_def)
    then obtain g where g: "literal_added h (s_type st) (c_string (s_buffer st @ body)) g"
        "\<And>k. scan_loop (k + n0) tree st1 h ds =
              scan_loop k tree (st\<lparr>s_state := STATE_NONE, s_buffer := s_buffer st @ body\<rparr>) g rest"
      using b0(2) True by (auto simp: st1_def)
    show ?thesis using g scan_loop_plain [OF ns step] b0(3) by auto
  next
    case nb: False
    show ?thesis
    proof (cases "c = q")
      case True
      then have b: "body = [c]" "rest = d # ds" "n = 1" using "3.prems"(1) nb by auto
      obtain g where g: "literal_added h (s_type st) (c_string (s_buffer st @ [q])) g"
          "plain_step tree st h q (d # ds)
             = Some (st\<lparr>s_state := STATE_NONE, s_buffer := s_buffer st @ [q]\<rparr>, g, d # ds)"
        using literal_close [OF st q _ ty, of tree "d # ds"] room b by auto
      show ?thesis using g(1) scan_loop_plain [OF ns g(2)] True b by auto
    next
      case False
      then obtain b0 n0 where b0: "literal_body q (d # ds) = Some (b0, rest, n0)"
          "body = c # b0" "n = Suc n0"
        using "3.prems"(1) nb by auto
      define st1 where "st1 = st\<lparr>s_buffer := s_buffer st @ [c]\<rparr>"
      have step: "plain_step tree st h c (d # ds) = Some (st1, h, d # ds)"
        unfolding st1_def using literal_other [OF st q _ nb False] room b0(2) by simp
      have "\<exists>g. literal_added h (s_type st1) (c_string (s_buffer st1 @ b0)) g \<and>
             (\<forall>k. scan_loop (k + n0) tree st1 h (d # ds) =
                   scan_loop k tree (st1\<lparr>s_state := STATE_NONE, s_buffer := s_buffer st1 @ b0\<rparr>) g rest)"
        using "3.IH"(2) [OF nb False b0(1), of st1] st q room ty b0(2) by (simp add: st1_def)
      then obtain g where g: "literal_added h (s_type st) (c_string (s_buffer st @ body)) g"
          "\<And>k. scan_loop (k + n0) tree st1 h (d # ds) =
                scan_loop k tree (st\<lparr>s_state := STATE_NONE, s_buffer := s_buffer st @ body\<rparr>) g rest"
        using b0(2) by (auto simp: st1_def)
      show ?thesis using g scan_loop_plain [OF ns step] b0(3) by auto
    qed
  qed
qed

end
